theory Spec2Isabelle
  imports Main "HOL-Library.Word"
begin

unbundle bit_operations_syntax

section \<open>The CHIP-8 machine of chip8.c\<close>

text \<open>
  The C integer types of the source: \<open>uint8_t\<close> and \<open>uint16_t\<close> are words, whose
  arithmetic wraps. An expression that C evaluates in \<open>int\<close> after integer promotion is
  written on \<open>nat\<close> (every such value of the source is non-negative and far below
  \<open>INT_MAX\<close>), and an assignment back into a narrow variable truncates with \<open>of_nat\<close>.
\<close>

type_synonym u8 = "8 word"
type_synonym u16 = "16 word"

definition STACK_SIZE :: nat where
  "STACK_SIZE = 5"

definition MEMORY_SIZE :: nat where
  "MEMORY_SIZE = 4096"

definition NOKEY :: u8 where
  "NOKEY = 255"

definition QUIT :: u8 where
  "QUIT = 254"

definition ERR :: int where
  "ERR = - 1"

text \<open>
  \<open>die\<close> ends the process with a message. The model returns the message as an error
  value. \<open>MemOutOfBounds\<close> and \<open>StackOutOfBounds\<close> are not messages of the source:
  they stand for an access outside the array \<open>mem\<close> or \<open>stack\<close>, which the source
  does not check and C leaves undefined.
\<close>

datatype error =
  StackOverflow | StackUnderflow | InvalidInstruction | MemOutOfBounds | StackOutOfBounds

text \<open>
  \<open>struct CHIP8\<close>. The arrays are functions from the index; the accesses to \<open>mem\<close> and
  the pop of \<open>stack\<close> go through bounds checks below. \<open>v\<close> is only ever indexed by a
  nibble of the instruction or by \<open>keyreg < 16\<close>, \<open>display\<close> only under the loop guards
  of \<open>draw\<close>.
\<close>

record CHIP8 =
  mem :: "nat \<Rightarrow> u8"
  stack :: "nat \<Rightarrow> u16"
  pc :: u16
  sp :: u16
  i :: u16
  delay :: u8
  sound :: u8
  v :: "nat \<Rightarrow> u8"
  dirty :: bool
  display :: "nat \<Rightarrow> nat \<Rightarrow> bool"
  inspertick :: int
  keymap :: string

definition mem_read :: "CHIP8 \<Rightarrow> nat \<Rightarrow> error + u8" where
  "mem_read vm a = (if a < MEMORY_SIZE then Inr (mem vm a) else Inl MemOutOfBounds)"

definition mem_write :: "CHIP8 \<Rightarrow> nat \<Rightarrow> u8 \<Rightarrow> error + CHIP8" where
  "mem_write vm a b =
     (if a < MEMORY_SIZE then Inr (vm\<lparr>mem := (mem vm)(a := b)\<rparr>) else Inl MemOutOfBounds)"

subsection \<open>Screen\<close>

text \<open>The curses calls (\<open>clear\<close>, \<open>mvaddch\<close>, \<open>refresh\<close>) only paint the terminal.\<close>

definition cls :: "CHIP8 \<Rightarrow> CHIP8" where
  "cls vm = vm\<lparr>display := (\<lambda>row col. False), dirty := True\<rparr>"

definition refreshscreen :: "CHIP8 \<Rightarrow> CHIP8" where
  "refreshscreen vm = (if dirty vm then vm\<lparr>dirty := False\<rparr> else vm)"

text \<open>\<open>(b<<n)&0x80\<close>, computed in \<open>int\<close> and converted to \<open>bool\<close>.\<close>

definition isbitset :: "nat \<Rightarrow> u8 \<Rightarrow> bool" where
  "isbitset n b = (push_bit n (unat b) AND 0x80 \<noteq> 0)"

definition setpixel :: "CHIP8 \<Rightarrow> nat \<Rightarrow> nat \<Rightarrow> CHIP8" where
  "setpixel vm row col =
     (if display vm row col
      then vm\<lparr>v := (v vm)(0xF := 1),
              display := (display vm)(row := (display vm row)(col := False)),
              dirty := True\<rparr>
      else vm\<lparr>display := (display vm)(row := (display vm row)(col := True)),
              dirty := True\<rparr>)"

text \<open>
  The inner loop of \<open>draw\<close>, from column \<open>col\<close> on. The counters are \<open>uint8_t\<close> in
  the source and stay below 16, so they are natural numbers here.
\<close>

function draw_cols :: "CHIP8 \<Rightarrow> nat \<Rightarrow> nat \<Rightarrow> nat \<Rightarrow> u8 \<Rightarrow> nat \<Rightarrow> CHIP8" where
  "draw_cols vm x y row b col =
     (if col < 8 \<and> x + col < 64
      then draw_cols (if isbitset col b then setpixel vm (y + row) (x + col) else vm)
             x y row b (col + 1)
      else vm)"
  by pat_completeness auto
termination
  by (relation "measure (\<lambda>(vm, x, y, row, b, col). 8 - col)") auto

text \<open>The outer loop of \<open>draw\<close>, from row \<open>row\<close> on.\<close>

function draw_rows :: "CHIP8 \<Rightarrow> nat \<Rightarrow> nat \<Rightarrow> nat \<Rightarrow> nat \<Rightarrow> error + CHIP8" where
  "draw_rows vm x y n row =
     (if row < n \<and> y + row < 32 \<and> unat (i vm) + row < MEMORY_SIZE
      then (case mem_read vm (unat (i vm) + row) of
              Inl e \<Rightarrow> Inl e
            | Inr b \<Rightarrow> draw_rows (draw_cols vm x y row b 0) x y n (row + 1))
      else Inr vm)"
  by pat_completeness auto
termination
  by (relation "measure (\<lambda>(vm, x, y, n, row). n - row)") auto

text \<open>The three locals of \<open>draw\<close>.\<close>

definition draw_x :: "CHIP8 \<Rightarrow> u16 \<Rightarrow> nat" where
  "draw_x vm inst = unat (v vm (unat (drop_bit 8 (inst AND 0x0F00)))) mod 64"

definition draw_y :: "CHIP8 \<Rightarrow> u16 \<Rightarrow> nat" where
  "draw_y vm inst = unat (v vm (unat (drop_bit 4 (inst AND 0x00F0)))) mod 32"

definition draw_n :: "u16 \<Rightarrow> nat" where
  "draw_n inst = unat (inst AND 0x000F)"

definition draw :: "CHIP8 \<Rightarrow> u16 \<Rightarrow> error + CHIP8" where
  "draw vm inst =
     draw_rows (vm\<lparr>v := (v vm)(0xF := 0)\<rparr>) (draw_x vm inst) (draw_y vm inst) (draw_n inst) 0"

subsection \<open>Stack, fetch, memory transfers\<close>

definition call :: "CHIP8 \<Rightarrow> u16 \<Rightarrow> error + CHIP8" where
  "call vm addr =
     (if unat (sp vm) \<ge> STACK_SIZE then Inl StackOverflow
      else Inr (vm\<lparr>stack := (stack vm)(unat (sp vm) := pc vm), sp := sp vm + 1, pc := addr\<rparr>))"

text \<open>
  \<open>vm->stack[--vm->sp]\<close>: the source checks only \<open>sp \<noteq> 0\<close>; reading at an index from
  \<open>STACK_SIZE\<close> on would be outside the array.
\<close>

definition rts :: "CHIP8 \<Rightarrow> error + CHIP8" where
  "rts vm =
     (if sp vm = 0 then Inl StackUnderflow
      else if unat (sp vm - 1) < STACK_SIZE
      then Inr (vm\<lparr>sp := sp vm - 1, pc := stack vm (unat (sp vm - 1))\<rparr>)
      else Inl StackOutOfBounds)"

definition fetch :: "CHIP8 \<Rightarrow> error + (u16 \<times> CHIP8)" where
  "fetch vm =
     (case mem_read vm (unat (pc vm) mod MEMORY_SIZE) of
        Inl e \<Rightarrow> Inl e
      | Inr i1 \<Rightarrow>
          (case mem_read vm (unat (pc vm + 1) mod MEMORY_SIZE) of
             Inl e \<Rightarrow> Inl e
           | Inr i2 \<Rightarrow>
               Inr (of_nat (push_bit 8 (unat i1) + unat i2), vm\<lparr>pc := pc vm + 1 + 1\<rparr>)))"

text \<open>
  \<open>bcd\<close>: the local \<open>vx\<close> is reduced after each digit; \<open>vx / 1\<close> and \<open>vx %= 1\<close> are
  kept as written.
\<close>

definition bcd :: "CHIP8 \<Rightarrow> u8 \<Rightarrow> error + CHIP8" where
  "bcd vm vx =
     (case mem_write vm ((unat (i vm) + 0) mod MEMORY_SIZE) (vx div 100) of
        Inl e \<Rightarrow> Inl e
      | Inr vm1 \<Rightarrow>
          (case mem_write vm1 ((unat (i vm1) + 1) mod MEMORY_SIZE) ((vx mod 100) div 10) of
             Inl e \<Rightarrow> Inl e
           | Inr vm2 \<Rightarrow>
               mem_write vm2 ((unat (i vm2) + 2) mod MEMORY_SIZE) (((vx mod 100) mod 10) div 1)))"

text \<open>
  The loops of \<open>regdmp\<close> and \<open>regld\<close>, from counter \<open>k\<close> on. They are called with a
  nibble as \<open>vx\<close>, so the \<open>uint8_t\<close> counter does not wrap.
\<close>

function regdmp_from :: "CHIP8 \<Rightarrow> nat \<Rightarrow> nat \<Rightarrow> error + CHIP8" where
  "regdmp_from vm vx k =
     (if k \<le> vx
      then (case mem_write vm ((unat (i vm) + k) mod MEMORY_SIZE) (v vm k) of
              Inl e \<Rightarrow> Inl e
            | Inr vm1 \<Rightarrow> regdmp_from vm1 vx (k + 1))
      else Inr vm)"
  by pat_completeness auto
termination
  by (relation "measure (\<lambda>(vm, vx, k). Suc vx - k)") auto

definition regdmp :: "CHIP8 \<Rightarrow> nat \<Rightarrow> error + CHIP8" where
  "regdmp vm vx = regdmp_from vm vx 0"

function regld_from :: "CHIP8 \<Rightarrow> nat \<Rightarrow> nat \<Rightarrow> error + CHIP8" where
  "regld_from vm vx k =
     (if k \<le> vx
      then (case mem_read vm ((unat (i vm) + k) mod MEMORY_SIZE) of
              Inl e \<Rightarrow> Inl e
            | Inr b \<Rightarrow> regld_from (vm\<lparr>v := (v vm)(k := b)\<rparr>) vx (k + 1))
      else Inr vm)"
  by pat_completeness auto
termination
  by (relation "measure (\<lambda>(vm, vx, k). Suc vx - k)") auto

definition regld :: "CHIP8 \<Rightarrow> nat \<Rightarrow> error + CHIP8" where
  "regld vm vx = regld_from vm vx 0"

subsection \<open>Keyboard\<close>

text \<open>
  \<open>getch\<close> returns a byte or \<open>ERR\<close> (the screen is opened without keypad mode).
  \<open>tolower\<close> is that of the C locale. \<open>strchr\<close> gives the offset of the first
  occurrence, the terminating NUL included.
\<close>

definition tolower :: "int \<Rightarrow> int" where
  "tolower c = (if 65 \<le> c \<and> c \<le> 90 then c + 32 else c)"

fun strchr :: "string \<Rightarrow> int \<Rightarrow> nat option" where
  "strchr [] c = (if c mod 256 = 0 then Some 0 else None)"
| "strchr (k # ks) c =
     (if int (of_char k) = c mod 256 then Some 0 else map_option Suc (strchr ks c))"

definition getkeyboard :: "CHIP8 \<Rightarrow> int \<Rightarrow> u8" where
  "getkeyboard vm c =
     (if c = 0x1b then QUIT
      else if c \<noteq> ERR
      then (case strchr (keymap vm) (tolower c) of Some ofs \<Rightarrow> of_nat ofs | None \<Rightarrow> NOKEY)
      else NOKEY)"

subsection \<open>Decoding and execution\<close>

text \<open>The decoding macros of \<open>run\<close>.\<close>

definition A :: "u16 \<Rightarrow> nat" where
  "A inst = unat (drop_bit 12 inst AND 0x0F)"

definition B :: "u16 \<Rightarrow> nat" where
  "B inst = unat (inst AND 0x0FF)"

definition D :: "u16 \<Rightarrow> nat" where
  "D inst = unat (inst AND 0x0F)"

definition X :: "u16 \<Rightarrow> nat" where
  "X inst = unat (drop_bit 8 inst AND 0x0F)"

definition Y :: "u16 \<Rightarrow> nat" where
  "Y inst = unat (drop_bit 4 inst AND 0x0F)"

definition VAL :: "u16 \<Rightarrow> nat" where
  "VAL inst = unat (inst AND 0x0FFF)"

definition LH :: "u16 \<Rightarrow> nat" where
  "LH inst = unat (inst AND 0x00FF)"

definition Vx :: "CHIP8 \<Rightarrow> u16 \<Rightarrow> u8" where
  "Vx vm inst = v vm (X inst)"

definition Vy :: "CHIP8 \<Rightarrow> u16 \<Rightarrow> u8" where
  "Vy vm inst = v vm (unat (drop_bit 4 inst AND 0xF))"

definition VF :: "CHIP8 \<Rightarrow> u8" where
  "VF vm = v vm 0xf"

definition set_Vx :: "CHIP8 \<Rightarrow> u16 \<Rightarrow> u8 \<Rightarrow> CHIP8" where
  "set_Vx vm inst b = vm\<lparr>v := (v vm)(X inst := b)\<rparr>"

definition set_VF :: "CHIP8 \<Rightarrow> u8 \<Rightarrow> CHIP8" where
  "set_VF vm b = vm\<lparr>v := (v vm)(0xf := b)\<rparr>"

definition of_bool8 :: "bool \<Rightarrow> u8" where
  "of_bool8 c = (if c then 1 else 0)"

definition skip :: "CHIP8 \<Rightarrow> bool \<Rightarrow> CHIP8" where
  "skip vm c = vm\<lparr>pc := pc vm + of_nat ((if c then 1 else 0) * 2)\<rparr>"

text \<open>
  The actions of the instructions that update a register and then \<open>VF\<close>, statement by
  statement: the second statement reads the registers the first one has written.
\<close>

definition add_reg :: "CHIP8 \<Rightarrow> u16 \<Rightarrow> CHIP8" where
  "add_reg vm inst =
     (let vm1 = set_Vx vm inst (Vx vm inst + Vy vm inst)
      in set_VF vm1 (of_bool8 (unat (Vx vm1 inst) + unat (Vy vm1 inst) > 0xFF)))"

definition sub_reg :: "CHIP8 \<Rightarrow> u16 \<Rightarrow> CHIP8" where
  "sub_reg vm inst =
     (let vm1 = set_Vx vm inst (Vx vm inst - Vy vm inst)
      in set_VF vm1 (of_bool8 (unat (Vx vm1 inst) > unat (Vy vm1 inst))))"

definition shr_reg :: "CHIP8 \<Rightarrow> u16 \<Rightarrow> CHIP8" where
  "shr_reg vm inst =
     (let vm1 = set_VF vm (Vx vm inst AND 1)
      in set_Vx vm1 inst (drop_bit 1 (Vx vm1 inst)))"

definition shl_reg :: "CHIP8 \<Rightarrow> u16 \<Rightarrow> CHIP8" where
  "shl_reg vm inst =
     (let vm1 = set_VF vm (of_bool8 (isbitset 0 (Vx vm inst)))
      in set_Vx vm1 inst (push_bit 1 (Vx vm1 inst)))"

definition add_index :: "CHIP8 \<Rightarrow> u16 \<Rightarrow> CHIP8" where
  "add_index vm inst =
     (let vm1 = vm\<lparr>i := i vm + of_nat (unat (Vx vm inst))\<rparr>
      in set_VF vm1 (of_bool8 (unat (Vx vm1 inst) + unat (i vm1) > 0xFFF)))"

definition with_keyreg :: "u8 \<Rightarrow> error + CHIP8 \<Rightarrow> error + (CHIP8 \<times> u8)" where
  "with_keyreg keyreg r = (case r of Inl e \<Rightarrow> Inl e | Inr vm \<Rightarrow> Inr (vm, keyreg))"

text \<open>
  The body of the \<open>for\<close> loop after the fetch: the chain of \<open>DEQ\<close>, \<open>DAA\<close>, \<open>DAD\<close>
  and \<open>DAB\<close> tests in the order of the source, the first match wins. \<open>pressed\<close> and
  \<open>keyreg\<close> are the locals of \<open>run\<close>; \<open>rnd\<close> is what \<open>rand()\<close> returns if it is
  called.
\<close>

definition exec :: "u8 \<Rightarrow> nat \<Rightarrow> u16 \<Rightarrow> CHIP8 \<Rightarrow> u8 \<Rightarrow> error + (CHIP8 \<times> u8)" where
  "exec pressed rnd inst vm keyreg =
    (if inst = 0x00E0 then Inr (cls vm, keyreg)
     else if inst = 0x00EE then with_keyreg keyreg (rts vm)
     else if A inst = 0x1 then Inr (vm\<lparr>pc := of_nat (VAL inst)\<rparr>, keyreg)
     else if A inst = 0x2 then with_keyreg keyreg (call vm (of_nat (VAL inst)))
     else if A inst = 0x3 then Inr (skip vm (unat (Vx vm inst) = LH inst), keyreg)
     else if A inst = 0x4 then Inr (skip vm (unat (Vx vm inst) \<noteq> LH inst), keyreg)
     else if A inst = 0x5 \<and> D inst = 0x00
       then Inr (skip vm (Vx vm inst = Vy vm inst), keyreg)
     else if A inst = 0x6 then Inr (set_Vx vm inst (of_nat (LH inst)), keyreg)
     else if A inst = 0x7 then Inr (set_Vx vm inst (Vx vm inst + of_nat (LH inst)), keyreg)
     else if A inst = 0x8 \<and> D inst = 0x00 then Inr (set_Vx vm inst (Vy vm inst), keyreg)
     else if A inst = 0x8 \<and> D inst = 0x01
       then Inr (set_Vx vm inst (Vx vm inst OR Vy vm inst), keyreg)
     else if A inst = 0x8 \<and> D inst = 0x02
       then Inr (set_Vx vm inst (Vx vm inst AND Vy vm inst), keyreg)
     else if A inst = 0x8 \<and> D inst = 0x03
       then Inr (set_Vx vm inst (Vx vm inst XOR Vy vm inst), keyreg)
     else if A inst = 0x8 \<and> D inst = 0x04 then Inr (add_reg vm inst, keyreg)
     else if A inst = 0x8 \<and> D inst = 0x05 then Inr (sub_reg vm inst, keyreg)
     else if A inst = 0x8 \<and> D inst = 0x06 then Inr (shr_reg vm inst, keyreg)
     else if A inst = 0x8 \<and> D inst = 0x07
       then Inr (set_Vx vm inst (Vy vm inst - Vx vm inst), keyreg)
     else if A inst = 0x8 \<and> D inst = 0x0E then Inr (shl_reg vm inst, keyreg)
     else if A inst = 0x9 \<and> D inst = 0x00
       then Inr (skip vm (Vx vm inst \<noteq> Vy vm inst), keyreg)
     else if A inst = 0xA then Inr (vm\<lparr>i := of_nat (VAL inst)\<rparr>, keyreg)
     else if A inst = 0xB then Inr (vm\<lparr>pc := of_nat (VAL inst + unat (v vm 0))\<rparr>, keyreg)
     else if A inst = 0xC
       then Inr (set_Vx vm inst (of_nat ((rnd mod 255) AND LH inst)), keyreg)
     else if A inst = 0xD then with_keyreg keyreg (draw vm inst)
     else if A inst = 0xE \<and> B inst = 0x9E
       then Inr (skip vm (Vx vm inst = pressed), keyreg)
     else if A inst = 0xE \<and> B inst = 0xA1
       then Inr (skip vm (Vx vm inst \<noteq> pressed), keyreg)
     else if A inst = 0xF \<and> B inst = 0x07 then Inr (set_Vx vm inst (delay vm), keyreg)
     else if A inst = 0xF \<and> B inst = 0x0A
       then Inr (vm\<lparr>pc := pc vm - 2\<rparr>, of_nat (X inst))
     else if A inst = 0xF \<and> B inst = 0x15 then Inr (vm\<lparr>delay := Vx vm inst\<rparr>, keyreg)
     else if A inst = 0xF \<and> B inst = 0x18 then Inr (vm\<lparr>sound := Vx vm inst\<rparr>, keyreg)
     else if A inst = 0xF \<and> B inst = 0x1E then Inr (add_index vm inst, keyreg)
     else if A inst = 0xF \<and> B inst = 0x29
       then Inr (vm\<lparr>i := of_nat (unat (Vx vm inst) * 5)\<rparr>, keyreg)
     else if A inst = 0xF \<and> B inst = 0x33 then with_keyreg keyreg (bcd vm (Vx vm inst))
     else if A inst = 0xF \<and> B inst = 0x55 then with_keyreg keyreg (regdmp vm (X inst))
     else if A inst = 0xF \<and> B inst = 0x65 then with_keyreg keyreg (regld vm (X inst))
     else Inl InvalidInstruction)"

text \<open>One pass of the \<open>for\<close> loop: fetch, then execute.\<close>

definition cycle :: "u8 \<Rightarrow> nat \<Rightarrow> CHIP8 \<Rightarrow> u8 \<Rightarrow> error + (CHIP8 \<times> u8)" where
  "cycle pressed rnd vm keyreg =
     (case fetch vm of
        Inl e \<Rightarrow> Inl e
      | Inr (inst, vm1) \<Rightarrow> exec pressed rnd inst vm1 keyreg)"

subsection \<open>The scheduler loop of \<open>run\<close>\<close>

text \<open>Lines 274 to 278: a pending key wait receives the polled byte.\<close>

definition deliver :: "CHIP8 \<Rightarrow> u8 \<Rightarrow> u8 \<Rightarrow> CHIP8 \<times> u8" where
  "deliver vm keyreg pressed =
     (if unat keyreg < 16 \<and> pressed \<noteq> NOKEY
      then (vm\<lparr>v := (v vm)(unat keyreg := pressed), pc := pc vm + 2\<rparr>, 17)
      else (vm, keyreg))"

text \<open>
  The \<open>for\<close> loop with \<open>n\<close> passes left. \<open>rnd k\<close> is the result of \<open>rand()\<close> in the
  pass that has \<open>k\<close> passes after it.
\<close>

fun batch :: "nat \<Rightarrow> u8 \<Rightarrow> (nat \<Rightarrow> nat) \<Rightarrow> CHIP8 \<Rightarrow> u8 \<Rightarrow> error + (CHIP8 \<times> u8)" where
  "batch 0 pressed rnd vm keyreg = Inr (vm, keyreg)"
| "batch (Suc n) pressed rnd vm keyreg =
     (case cycle pressed (rnd n) vm keyreg of
        Inl e \<Rightarrow> Inl e
      | Inr (vm1, keyreg1) \<Rightarrow> batch n pressed rnd vm1 keyreg1)"

definition timers :: "CHIP8 \<Rightarrow> CHIP8" where
  "timers vm =
     vm\<lparr>delay := (if delay vm \<noteq> 0 then delay vm - 1 else delay vm),
        sound := (if sound vm \<noteq> 0 then sound vm - 1 else sound vm)\<rparr>"

text \<open>
  One pass of the \<open>while\<close> loop, given the result \<open>c\<close> of \<open>getch\<close>. The clock and
  the sleep do not touch the machine. The result carries the locals \<open>keyreg\<close> and
  \<open>pressed\<close>.
\<close>

definition tick :: "int \<Rightarrow> (nat \<Rightarrow> nat) \<Rightarrow> CHIP8 \<Rightarrow> u8 \<Rightarrow> error + (CHIP8 \<times> u8 \<times> u8)" where
  "tick c rnd vm keyreg =
     (let pressed = getkeyboard vm c;
          (vm1, keyreg1) = deliver vm keyreg pressed
      in case batch (nat (inspertick vm1)) pressed rnd vm1 keyreg1 of
           Inl e \<Rightarrow> Inl e
         | Inr (vm2, keyreg2) \<Rightarrow> Inr (refreshscreen (timers vm2), keyreg2, pressed))"

text \<open>
  The \<open>while\<close> loop over a finite sequence of \<open>getch\<close> results, one per pass; it stops
  early once \<open>pressed\<close> is \<open>QUIT\<close>.
\<close>

fun ticks :: "int list \<Rightarrow> (nat \<Rightarrow> nat) \<Rightarrow> CHIP8 \<Rightarrow> u8 \<Rightarrow> u8 \<Rightarrow> error + (CHIP8 \<times> u8 \<times> u8)" where
  "ticks [] rnd vm keyreg pressed = Inr (vm, keyreg, pressed)"
| "ticks (c # cs) rnd vm keyreg pressed =
     (if pressed \<noteq> QUIT
      then (case tick c rnd vm keyreg of
              Inl e \<Rightarrow> Inl e
            | Inr (vm1, keyreg1, pressed1) \<Rightarrow> ticks cs rnd vm1 keyreg1 pressed1)
      else Inr (vm, keyreg, pressed))"

definition run :: "int list \<Rightarrow> (nat \<Rightarrow> nat) \<Rightarrow> CHIP8 \<Rightarrow> error + (CHIP8 \<times> u8 \<times> u8)" where
  "run cs rnd vm = ticks cs rnd vm 17 NOKEY"

subsection \<open>Start-up\<close>

text \<open>
  The initialiser of \<open>main\<close> (all other members are zero) and \<open>loadrom\<close> on the
  bytes of the file: \<open>fread\<close> stores at most \<open>MEMORY_SIZE - addr\<close> of them.
\<close>

definition vm_main :: CHIP8 where
  "vm_main =
     \<lparr>mem = (\<lambda>a. 0), stack = (\<lambda>k. 0), pc = 512, sp = 0, i = 0, delay = 0, sound = 0,
      v = (\<lambda>k. 0), dirty = False, display = (\<lambda>row col. False), inspertick = 11,
      keymap = ''x123qweasdzc4rfv''\<rparr>"

definition loadrom :: "u8 list \<Rightarrow> (nat \<Rightarrow> u8) \<Rightarrow> nat \<Rightarrow> nat \<Rightarrow> u8" where
  "loadrom rom buf addr =
     (\<lambda>a. if addr \<le> a \<and> a < MEMORY_SIZE \<and> a - addr < length rom then rom ! (a - addr)
          else buf a)"

section \<open>Predicates used in the statements\<close>

text \<open>
  What one call of \<open>draw\<close> renders, as the code has it: \<open>sprite vm x y n r c\<close> says
  that the sprite of \<open>n\<close> rows at \<open>i\<close>, put at column \<open>x\<close> and row \<open>y\<close>, has a set
  bit on the pixel in row \<open>r\<close> and column \<open>c\<close>. The row must lie in the grid and its
  byte inside the memory array, the column must lie in the grid; bit 7 of the byte is the
  leftmost pixel.
\<close>

definition sprite :: "CHIP8 \<Rightarrow> nat \<Rightarrow> nat \<Rightarrow> nat \<Rightarrow> nat \<Rightarrow> nat \<Rightarrow> bool" where
  "sprite vm x y n r c =
     (y \<le> r \<and> r - y < n \<and> r < 32 \<and> unat (i vm) + (r - y) < MEMORY_SIZE \<and>
      x \<le> c \<and> c - x < 8 \<and> c < 64 \<and> bit (mem vm (unat (i vm) + (r - y))) (7 - (c - x)))"

text \<open>
  The rendering as the specification words it: \<open>n\<close> bytes starting at the index
  register, addressed modulo the memory size as all addressing of the specification is,
  clipped at the border of the grid only.
\<close>

definition spec_sprite :: "CHIP8 \<Rightarrow> nat \<Rightarrow> nat \<Rightarrow> nat \<Rightarrow> nat \<Rightarrow> nat \<Rightarrow> bool" where
  "spec_sprite vm x y n r c =
     (y \<le> r \<and> r - y < n \<and> r < 32 \<and> x \<le> c \<and> c - x < 8 \<and> c < 64 \<and>
      bit (mem vm ((unat (i vm) + (r - y)) mod MEMORY_SIZE)) (7 - (c - x)))"

text \<open>A collision: the sprite has a set bit on a pixel that is on in the buffer \<open>d\<close>.\<close>

definition collision :: "(nat \<Rightarrow> nat \<Rightarrow> bool) \<Rightarrow> CHIP8 \<Rightarrow> nat \<Rightarrow> nat \<Rightarrow> nat \<Rightarrow> bool" where
  "collision d vm x y n = (\<exists>r\<in>{0..<32}. \<exists>c\<in>{0..<64}. sprite vm x y n r c \<and> d r c)"

text \<open>The members of the machine that \<open>draw\<close> leaves alone.\<close>

definition draw_frame :: "CHIP8 \<Rightarrow> CHIP8 \<Rightarrow> bool" where
  "draw_frame vm vm' =
     (mem vm' = mem vm \<and> stack vm' = stack vm \<and> pc vm' = pc vm \<and> sp vm' = sp vm \<and>
      i vm' = i vm \<and> delay vm' = delay vm \<and> sound vm' = sound vm \<and>
      inspertick vm' = inspertick vm \<and> keymap vm' = keymap vm)"

text \<open>Loop invariants of \<open>draw\<close>: the set bits still to come from a column or a row on.\<close>

definition draw_col_step :: "CHIP8 \<Rightarrow> nat \<Rightarrow> nat \<Rightarrow> nat \<Rightarrow> u8 \<Rightarrow> nat \<Rightarrow> CHIP8" where
  "draw_col_step vm x y row b col =
     (if isbitset col b then setpixel vm (y + row) (x + col) else vm)"

definition cols_hit :: "(nat \<Rightarrow> bool) \<Rightarrow> nat \<Rightarrow> u8 \<Rightarrow> nat \<Rightarrow> bool" where
  "cols_hit d x b col =
     (\<exists>c. x + col \<le> c \<and> c < x + 8 \<and> c < 64 \<and> isbitset (c - x) b \<and> d c)"

definition rows_hit :: "(nat \<Rightarrow> nat \<Rightarrow> bool) \<Rightarrow> CHIP8 \<Rightarrow> nat \<Rightarrow> nat \<Rightarrow> nat \<Rightarrow> nat \<Rightarrow> bool" where
  "rows_hit d vm x y n row = (\<exists>r c. y + row \<le> r \<and> sprite vm x y n r c \<and> d r c)"

definition draw_rows_post :: "CHIP8 \<Rightarrow> nat \<Rightarrow> nat \<Rightarrow> nat \<Rightarrow> nat \<Rightarrow> CHIP8 \<Rightarrow> bool" where
  "draw_rows_post vm x y n row vm' =
     (draw_frame vm vm' \<and>
      (\<forall>r c. display vm' r c = (display vm r c \<noteq> (y + row \<le> r \<and> sprite vm x y n r c))) \<and>
      (\<forall>k. v vm' k = (if k = 0xF \<and> rows_hit (display vm) vm x y n row then 1 else v vm k)) \<and>
      dirty vm' = (dirty vm \<or> rows_hit (\<lambda>r c. True) vm x y n row))"

text \<open>
  The program of the end-to-end scenario, \<open>ld V0,0xFF; ld V1,0x01; add V0,V1\<close>, loaded
  at the default address into any machine (\<open>main\<close> loads the program after the font
  table) with the program counter on it.
\<close>

definition prog_add :: "CHIP8 \<Rightarrow> CHIP8" where
  "prog_add vm =
     vm\<lparr>mem := loadrom [0x60, 0xFF, 0x61, 0x01, 0x80, 0x14] (mem vm) 512, pc := 512\<rparr>"

text \<open>
  Two machines for the draw instruction. \<open>vm_edge\<close>: memory full of \<open>0xFF\<close>, the
  index register on the last byte, all registers zero. \<open>vm_corner\<close>: a sprite of two
  rows \<open>0xFF\<close> at \<open>0x300\<close>, to be drawn at column 60 of the last row.
\<close>

definition vm_edge :: CHIP8 where
  "vm_edge = vm_main\<lparr>mem := (\<lambda>a. 0xFF), i := 0xFFF\<rparr>"

definition vm_corner :: CHIP8 where
  "vm_corner =
     vm_main\<lparr>mem := loadrom [0xFF, 0xFF] (mem vm_main) 0x300, i := 0x300,
             v := (v vm_main)(0 := 60, 1 := 31)\<rparr>"

definition pixel_after :: "error + CHIP8 \<Rightarrow> nat \<Rightarrow> nat \<Rightarrow> bool option" where
  "pixel_after res r c = (case res of Inl e \<Rightarrow> None | Inr vm \<Rightarrow> Some (display vm r c))"

text \<open>The members of the machine that a tick spent waiting leaves alone.\<close>

definition same_program :: "CHIP8 \<Rightarrow> CHIP8 \<Rightarrow> bool" where
  "same_program vm vm' =
     (mem vm' = mem vm \<and> stack vm' = stack vm \<and> pc vm' = pc vm \<and> sp vm' = sp vm \<and>
      i vm' = i vm \<and> v vm' = v vm \<and> display vm' = display vm \<and>
      inspertick vm' = inspertick vm \<and> keymap vm' = keymap vm)"

text \<open>
  The condition of the key skips as the specification words it: the poll of the tick gave
  a logical key index, 0 to 15, and it is the key \<open>k\<close>.
\<close>

definition key_pressed :: "u8 \<Rightarrow> u8 \<Rightarrow> bool" where
  "key_pressed pressed k = (unat pressed < 16 \<and> pressed = k)"

text \<open>What a run that returned left in the program counter and in a register.\<close>

definition pc_after :: "error + (CHIP8 \<times> 'a) \<Rightarrow> u16 option" where
  "pc_after res = (case res of Inl e \<Rightarrow> None | Inr (vm, rest) \<Rightarrow> Some (pc vm))"

definition reg_after :: "error + (CHIP8 \<times> 'a) \<Rightarrow> nat \<Rightarrow> u8 option" where
  "reg_after res k = (case res of Inl e \<Rightarrow> None | Inr (vm, rest) \<Rightarrow> Some (v vm k))"

text \<open>A random source that always returns 0.\<close>

definition rand_zero :: "nat \<Rightarrow> nat" where
  "rand_zero k = 0"

text \<open>
  More machines: \<open>prog_skip\<close>, the start-up state with a program at the default
  address, \<open>V0 = 5\<close> and \<open>V1 = 0x2A\<close>; \<open>vm_nokey\<close> with \<open>skp V0\<close> and
  \<open>V0 = 255\<close>;
  \<open>vm_wait\<close> with \<open>ld V3,K; jp 0x202\<close>; \<open>vm_top\<close> with the program counter and the
  index register on the last byte of memory.
\<close>

definition prog_skip :: "u8 list \<Rightarrow> CHIP8" where
  "prog_skip rom =
     vm_main\<lparr>mem := loadrom rom (mem vm_main) 512, v := (v vm_main)(0 := 5, 1 := 0x2A)\<rparr>"

definition vm_nokey :: CHIP8 where
  "vm_nokey = (prog_skip [0xE0, 0x9E])\<lparr>v := (v vm_main)(0 := 255)\<rparr>"

definition vm_wait :: CHIP8 where
  "vm_wait = vm_main\<lparr>mem := loadrom [0xF3, 0x0A, 0x12, 0x02] (mem vm_main) 512\<rparr>"

definition vm_top :: CHIP8 where
  "vm_top =
     vm_main\<lparr>mem := (\<lambda>a. if a = 0 then 0x0A else if a = 4095 then 0xF3 else 0),
             pc := 0xFFF, i := 0xFFF, v := (v vm_main)(0 := 7, 1 := 9)\<rparr>"

section \<open>Fetch and the flag instructions\<close>

lemma fetch_eq:
  "fetch vm =
     Inr (of_nat (push_bit 8 (unat (mem vm (unat (pc vm) mod MEMORY_SIZE))) +
                  unat (mem vm (unat (pc vm + 1) mod MEMORY_SIZE))),
          vm\<lparr>pc := pc vm + 2\<rparr>)"
  by (simp add: fetch_def mem_read_def MEMORY_SIZE_def)

text \<open>
  C1. The specification asks that \<open>add V0,V1\<close> from \<open>V0 = 0xFF\<close> and \<open>V1 = 0x01\<close>
  leaves \<open>V0 = 0x00\<close> and \<open>VF = 1\<close>. The code computes the flag from the register it
  has just overwritten, \<open>0x00 + 0x01 > 0xFF\<close>, and leaves \<open>VF = 0\<close>: both for the single
  instruction on any machine with these two registers and for the three-instruction
  program run from its first instruction.
\<close>

theorem add_reg_FF_01_clears_VF:
  "(\<exists>vm1. exec pressed rnd 0x8014 (vm\<lparr>v := (v vm)(0 := 0xFF, 1 := 0x01)\<rparr>) keyreg = Inr (vm1, keyreg) \<and>
      v vm1 0 = 0x00 \<and> v vm1 0xF = 0) \<and>
   (\<exists>vm1. batch 3 pressed rnds (prog_add vm) keyreg = Inr (vm1, keyreg) \<and>
      v vm1 0 = 0x00 \<and> v vm1 0xF = 0)"
  by (simp add: numeral_3_eq_3 prog_add_def loadrom_def cycle_def fetch_eq
      MEMORY_SIZE_def exec_def A_def D_def X_def LH_def Vx_def Vy_def set_Vx_def set_VF_def
      add_reg_def of_bool8_def)

text \<open>
  C2. The specification asks that \<open>sub Vx,Vy\<close> from \<open>Vx = 0\<close> and \<open>Vy = 1\<close> gives
  255 with \<open>VF = 0\<close>. The code compares the difference it has just stored with \<open>Vy\<close>,
  \<open>255 > 1\<close>, and sets \<open>VF = 1\<close>.
\<close>

theorem sub_reg_00_01_sets_VF:
  "\<exists>vm1. exec pressed rnd 0x8015 (vm\<lparr>v := (v vm)(0 := 0x00, 1 := 0x01)\<rparr>) keyreg = Inr (vm1, keyreg) \<and>
     v vm1 0 = 0xFF \<and> v vm1 0xF = 1"
  by (simp add: exec_def A_def D_def X_def Vx_def Vy_def set_Vx_def set_VF_def sub_reg_def
      of_bool8_def unsigned_minus_1_eq_mask mask_eq_exp_minus_1)

text \<open>
  C3. The specification asks that \<open>add I,Vx\<close> sets \<open>VF\<close> exactly when the sum of the
  old \<open>I\<close> and \<open>Vx\<close> exceeds \<open>0xFFF\<close>. From \<open>I = 0xFFE\<close> and \<open>V0 = 1\<close> that sum is
  \<open>0xFFF\<close>, yet the code adds \<open>Vx\<close> to the index it has just updated,
  \<open>1 + 0xFFF > 0xFFF\<close>, and sets \<open>VF = 1\<close>.
\<close>

theorem add_index_FFE_01_sets_VF:
  "\<exists>vm1. exec pressed rnd 0xF01E (vm\<lparr>v := (v vm)(0 := 0x01), i := 0xFFE\<rparr>) keyreg = Inr (vm1, keyreg) \<and>
     i vm1 = 0xFFF \<and> v vm1 0xF = 1"
  by (simp add: exec_def A_def B_def D_def X_def Vx_def Vy_def set_Vx_def set_VF_def
      add_index_def of_bool8_def)

text \<open>
  What the three instructions store in general, for a destination other than \<open>VF\<close>
  and, for the two register instructions, other than the source: the result wraps as it
  should, and the flag is computed from the result instead of the old value.
\<close>

lemma add_reg_result:
  assumes "X inst \<noteq> 0xF" "Y inst \<noteq> X inst"
  shows "v (add_reg vm inst) (X inst) = Vx vm inst + Vy vm inst \<and>
     v (add_reg vm inst) 0xF =
       of_bool8 (unat (Vx vm inst + Vy vm inst) + unat (Vy vm inst) > 0xFF)"
  using assms by (simp add: add_reg_def set_Vx_def set_VF_def Vx_def Vy_def Y_def)

lemma sub_reg_result:
  assumes "X inst \<noteq> 0xF" "Y inst \<noteq> X inst"
  shows "v (sub_reg vm inst) (X inst) = Vx vm inst - Vy vm inst \<and>
     v (sub_reg vm inst) 0xF = of_bool8 (unat (Vx vm inst - Vy vm inst) > unat (Vy vm inst))"
  using assms by (simp add: sub_reg_def set_Vx_def set_VF_def Vx_def Vy_def Y_def)

lemma add_index_result:
  assumes "X inst \<noteq> 0xF"
  shows "i (add_index vm inst) = i vm + ucast (Vx vm inst) \<and>
     v (add_index vm inst) 0xF =
       of_bool8 (unat (Vx vm inst) + unat (i vm + ucast (Vx vm inst)) > 0xFFF)"
  using assms by (simp add: add_index_def set_VF_def Vx_def)

section \<open>The draw instruction\<close>

lemma isbitset_bit: "n < 8 \<Longrightarrow> isbitset n b = bit b (7 - n)"
proof -
  assume n: "n < 8"
  have "isbitset n b = (\<not> (push_bit n (unat b) AND 2 ^ 7 = 0))"
    by (simp add: isbitset_def)
  also have "\<dots> = bit (push_bit n (unat b)) 7"
    by (simp only: and_exp_eq_0_iff_not_bit) simp
  also have "\<dots> = bit b (7 - n)"
    using n by (simp add: bit_push_bit_iff bit_unsigned_iff)
  finally show ?thesis .
qed

declare draw_cols.simps [simp del]
declare draw_rows.simps [simp del]

lemma setpixel_frame:
  "mem (setpixel vm r c) = mem vm" "i (setpixel vm r c) = i vm"
  "pc (setpixel vm r c) = pc vm" "sp (setpixel vm r c) = sp vm"
  "stack (setpixel vm r c) = stack vm" "delay (setpixel vm r c) = delay vm"
  "sound (setpixel vm r c) = sound vm" "inspertick (setpixel vm r c) = inspertick vm"
  "keymap (setpixel vm r c) = keymap vm"
  by (simp_all add: setpixel_def)

lemma setpixel_display:
  "display (setpixel vm row col) r c = (display vm r c \<noteq> (r = row \<and> c = col))"
  by (auto simp: setpixel_def)

lemma setpixel_v:
  "v (setpixel vm row col) k = (if k = 0xF \<and> display vm row col then 1 else v vm k)"
  by (simp add: setpixel_def)

lemma setpixel_dirty: "dirty (setpixel vm row col)"
  by (simp add: setpixel_def)

lemma draw_cols_stop:
  "\<not> (col < 8 \<and> x + col < 64) \<Longrightarrow> draw_cols vm x y row b col = vm"
  by (subst draw_cols.simps) auto

lemma draw_cols_next:
  "col < 8 \<and> x + col < 64 \<Longrightarrow>
   draw_cols vm x y row b col =
     draw_cols (if isbitset col b then setpixel vm (y + row) (x + col) else vm) x y row b (col + 1)"
  by (subst draw_cols.simps) auto

lemma draw_cols_frame:
  "mem (draw_cols vm x y row b col) = mem vm \<and> i (draw_cols vm x y row b col) = i vm"
proof (induction vm x y row b col rule: draw_cols.induct)
  case (1 vm x y row b col)
  show ?case
  proof (cases "col < 8 \<and> x + col < 64")
    case True
    then show ?thesis
      using 1 [OF True] by (simp add: draw_cols_next setpixel_frame)
  next
    case False
    then show ?thesis
      by (simp add: draw_cols_stop)
  qed
qed

lemma draw_cols_display:
  "display (draw_cols vm x y row b col) r c =
     (display vm r c \<noteq> (r = y + row \<and> x + col \<le> c \<and> c < x + 8 \<and> c < 64 \<and> isbitset (c - x) b))"
proof (induction vm x y row b col rule: draw_cols.induct)
  case (1 vm x y row b col)
  show ?case
  proof (cases "col < 8 \<and> x + col < 64")
    case True
    have step: "display (draw_col_step vm x y row b col) r c =
        (display vm r c \<noteq> (r = y + row \<and> c = x + col \<and> isbitset col b))"
      by (auto simp: draw_col_step_def setpixel_display)
    have "display (draw_cols vm x y row b col) r c =
        display (draw_cols (draw_col_step vm x y row b col) x y row b (col + 1)) r c"
      using True by (simp add: draw_cols_next draw_col_step_def)
    also have "\<dots> = (display (draw_col_step vm x y row b col) r c \<noteq>
        (r = y + row \<and> x + (col + 1) \<le> c \<and> c < x + 8 \<and> c < 64 \<and> isbitset (c - x) b))"
      using 1 [OF True] by (simp only: draw_col_step_def)
    finally show ?thesis
      using True unfolding step by (cases "c = x + col") auto
  next
    case False
    then show ?thesis
      by (auto simp: draw_cols_stop)
  qed
qed

lemma cols_hit_stop: "\<not> (col < 8 \<and> x + col < 64) \<Longrightarrow> \<not> cols_hit d x b col"
  by (auto simp: cols_hit_def)

lemma cols_hit_next:
  assumes "col < 8 \<and> x + col < 64"
  shows "cols_hit d x b col = ((isbitset col b \<and> d (x + col)) \<or> cols_hit d x b (col + 1))"
proof
  assume "cols_hit d x b col"
  then obtain c where c: "x + col \<le> c" "c < x + 8" "c < 64" "isbitset (c - x) b" "d c"
    unfolding cols_hit_def by blast
  show "(isbitset col b \<and> d (x + col)) \<or> cols_hit d x b (col + 1)"
  proof (cases "c = x + col")
    case True
    with c show ?thesis by simp
  next
    case False
    with c have "x + (col + 1) \<le> c" by simp
    with c show ?thesis unfolding cols_hit_def by blast
  qed
next
  assume "(isbitset col b \<and> d (x + col)) \<or> cols_hit d x b (col + 1)"
  then show "cols_hit d x b col"
  proof
    assume "isbitset col b \<and> d (x + col)"
    with assms have "x + col \<le> x + col \<and> x + col < x + 8 \<and> x + col < 64 \<and>
      isbitset (x + col - x) b \<and> d (x + col)" by simp
    then show ?thesis unfolding cols_hit_def by blast
  next
    assume "cols_hit d x b (col + 1)"
    then obtain c where "x + (col + 1) \<le> c" "c < x + 8" "c < 64" "isbitset (c - x) b" "d c"
      unfolding cols_hit_def by blast
    then have "x + col \<le> c \<and> c < x + 8 \<and> c < 64 \<and> isbitset (c - x) b \<and> d c" by simp
    then show ?thesis unfolding cols_hit_def by blast
  qed
qed

lemma cols_hit_cong:
  "(\<And>c. x + col \<le> c \<Longrightarrow> d c = d' c) \<Longrightarrow> cols_hit d x b col = cols_hit d' x b col"
  unfolding cols_hit_def by auto

lemma draw_cols_v:
  "v (draw_cols vm x y row b col) k =
     (if k = 0xF \<and> cols_hit (display vm (y + row)) x b col then 1 else v vm k)"
proof (induction vm x y row b col rule: draw_cols.induct)
  case (1 vm x y row b col)
  show ?case
  proof (cases "col < 8 \<and> x + col < 64")
    case True
    let ?vm1 = "draw_col_step vm x y row b col"
    have v1: "v ?vm1 k =
        (if k = 0xF \<and> isbitset col b \<and> display vm (y + row) (x + col) then 1 else v vm k)"
      by (simp add: draw_col_step_def setpixel_v)
    have hit1: "cols_hit (display ?vm1 (y + row)) x b (col + 1) =
        cols_hit (display vm (y + row)) x b (col + 1)"
      by (rule cols_hit_cong) (simp add: draw_col_step_def setpixel_display)
    have "v (draw_cols vm x y row b col) k = v (draw_cols ?vm1 x y row b (col + 1)) k"
      using True by (simp add: draw_cols_next draw_col_step_def)
    also have "\<dots> =
        (if k = 0xF \<and> cols_hit (display ?vm1 (y + row)) x b (col + 1) then 1 else v ?vm1 k)"
      using 1 [OF True] by (simp only: draw_col_step_def)
    finally show ?thesis
      unfolding hit1 v1 cols_hit_next [OF True, of "display vm (y + row)" b] by auto
  next
    case False
    then show ?thesis
      by (simp add: draw_cols_stop cols_hit_stop)
  qed
qed

lemma draw_cols_dirty:
  "dirty (draw_cols vm x y row b col) = (dirty vm \<or> cols_hit (\<lambda>c. True) x b col)"
proof (induction vm x y row b col rule: draw_cols.induct)
  case (1 vm x y row b col)
  show ?case
  proof (cases "col < 8 \<and> x + col < 64")
    case True
    let ?vm1 = "draw_col_step vm x y row b col"
    have d1: "dirty ?vm1 = (dirty vm \<or> isbitset col b)"
      by (simp add: draw_col_step_def setpixel_dirty)
    have "dirty (draw_cols vm x y row b col) = dirty (draw_cols ?vm1 x y row b (col + 1))"
      using True by (simp add: draw_cols_next draw_col_step_def)
    also have "\<dots> = (dirty ?vm1 \<or> cols_hit (\<lambda>c. True) x b (col + 1))"
      using 1 [OF True] by (simp only: draw_col_step_def)
    finally show ?thesis
      unfolding d1 cols_hit_next [OF True, of "\<lambda>c. True" b] by blast
  next
    case False
    then show ?thesis
      by (simp add: draw_cols_stop cols_hit_stop)
  qed
qed

lemma draw_cols_draw_frame: "draw_frame vm (draw_cols vm x y row b col)"
proof (induction vm x y row b col rule: draw_cols.induct)
  case (1 vm x y row b col)
  show ?case
  proof (cases "col < 8 \<and> x + col < 64")
    case True
    then show ?thesis
      using 1 [OF True] by (simp add: draw_cols_next draw_frame_def setpixel_frame)
  next
    case False
    then show ?thesis
      by (simp add: draw_cols_stop draw_frame_def)
  qed
qed

lemma sprite_cong: "mem vm' = mem vm \<Longrightarrow> i vm' = i vm \<Longrightarrow> sprite vm' = sprite vm"
  by (intro ext) (simp add: sprite_def)

lemma sprite_row:
  assumes "row < n \<and> y + row < 32 \<and> unat (i vm) + row < MEMORY_SIZE"
  shows "sprite vm x y n (y + row) c =
     (x \<le> c \<and> c < x + 8 \<and> c < 64 \<and> isbitset (c - x) (mem vm (unat (i vm) + row)))"
  using assms by (auto simp: sprite_def isbitset_bit)

lemma sprite_stop:
  assumes "\<not> (row < n \<and> y + row < 32 \<and> unat (i vm) + row < MEMORY_SIZE)" "y + row \<le> r"
  shows "\<not> sprite vm x y n r c"
  using assms by (auto simp: sprite_def)

lemma rows_hit_stop:
  "\<not> (row < n \<and> y + row < 32 \<and> unat (i vm) + row < MEMORY_SIZE) \<Longrightarrow>
   \<not> rows_hit d vm x y n row"
  unfolding rows_hit_def using sprite_stop by blast

lemma rows_hit_next:
  assumes g: "row < n \<and> y + row < 32 \<and> unat (i vm) + row < MEMORY_SIZE"
  shows "rows_hit d vm x y n row =
     (cols_hit (d (y + row)) x (mem vm (unat (i vm) + row)) 0 \<or> rows_hit d vm x y n (row + 1))"
proof
  assume "rows_hit d vm x y n row"
  then obtain r c where rc: "y + row \<le> r" "sprite vm x y n r c" "d r c"
    unfolding rows_hit_def by blast
  show "cols_hit (d (y + row)) x (mem vm (unat (i vm) + row)) 0 \<or> rows_hit d vm x y n (row + 1)"
  proof (cases "r = y + row")
    case True
    with rc sprite_row [OF g, of x c] have "x + 0 \<le> c \<and> c < x + 8 \<and> c < 64 \<and>
        isbitset (c - x) (mem vm (unat (i vm) + row)) \<and> d (y + row) c" by simp
    then show ?thesis
      unfolding cols_hit_def by blast
  next
    case False
    with rc have "y + (row + 1) \<le> r" by simp
    with rc show ?thesis unfolding rows_hit_def by blast
  qed
next
  assume "cols_hit (d (y + row)) x (mem vm (unat (i vm) + row)) 0 \<or> rows_hit d vm x y n (row + 1)"
  then show "rows_hit d vm x y n row"
  proof
    assume "cols_hit (d (y + row)) x (mem vm (unat (i vm) + row)) 0"
    then obtain c where "x \<le> c" "c < x + 8" "c < 64"
      "isbitset (c - x) (mem vm (unat (i vm) + row))" "d (y + row) c"
      unfolding cols_hit_def by auto
    with sprite_row [OF g, of x c] have "y + row \<le> y + row \<and> sprite vm x y n (y + row) c \<and> d (y + row) c"
      by simp
    then show ?thesis unfolding rows_hit_def by blast
  next
    assume "rows_hit d vm x y n (row + 1)"
    then obtain r c where "y + (row + 1) \<le> r" "sprite vm x y n r c" "d r c"
      unfolding rows_hit_def by blast
    then have "y + row \<le> r \<and> sprite vm x y n r c \<and> d r c" by simp
    then show ?thesis unfolding rows_hit_def by blast
  qed
qed

lemma rows_hit_cong:
  "(\<And>r c. y + row \<le> r \<Longrightarrow> d r c = d' r c) \<Longrightarrow> mem vm' = mem vm \<Longrightarrow> i vm' = i vm \<Longrightarrow>
   rows_hit d vm' x y n row = rows_hit d' vm x y n row"
proof -
  assume d: "\<And>r c. y + row \<le> r \<Longrightarrow> d r c = d' r c" and m: "mem vm' = mem vm" "i vm' = i vm"
  have "sprite vm' = sprite vm"
    using m by (rule sprite_cong)
  then show ?thesis
    unfolding rows_hit_def using d by auto
qed

lemma draw_rows_stop:
  "\<not> (row < n \<and> y + row < 32 \<and> unat (i vm) + row < MEMORY_SIZE) \<Longrightarrow>
   draw_rows vm x y n row = Inr vm"
  by (subst draw_rows.simps) auto

lemma draw_rows_next:
  "row < n \<and> y + row < 32 \<and> unat (i vm) + row < MEMORY_SIZE \<Longrightarrow>
   draw_rows vm x y n row =
     draw_rows (draw_cols vm x y row (mem vm (unat (i vm) + row)) 0) x y n (row + 1)"
  by (subst draw_rows.simps) (auto simp: mem_read_def)

lemma draw_cols_display0:
  "display (draw_cols vm x y row b 0) r c =
     (display vm r c \<noteq> (r = y + row \<and> x \<le> c \<and> c < x + 8 \<and> c < 64 \<and> isbitset (c - x) b))"
  using draw_cols_display [of vm x y row b 0 r c] by simp

lemma draw_rows_post_stop:
  assumes "\<not> (row < n \<and> y + row < 32 \<and> unat (i vm) + row < MEMORY_SIZE)"
  shows "draw_rows_post vm x y n row vm"
proof -
  have ns: "\<not> (y + row \<le> r \<and> sprite vm x y n r c)" for r c
    using sprite_stop [OF assms] by blast
  show ?thesis
    unfolding draw_rows_post_def
    by (simp add: ns rows_hit_stop [OF assms] draw_frame_def)
qed

lemma draw_rows_result: "\<exists>vm'. draw_rows vm x y n row = Inr vm' \<and> draw_rows_post vm x y n row vm'"
proof (induction vm x y n row rule: draw_rows.induct)
  case (1 vm x y n row)
  show ?case
  proof (cases "row < n \<and> y + row < 32 \<and> unat (i vm) + row < MEMORY_SIZE")
    case False
    then show ?thesis
      using draw_rows_post_stop [OF False] by (simp add: draw_rows_stop)
  next
    case True
    let ?b = "mem vm (unat (i vm) + row)"
    let ?vm1 = "draw_cols vm x y row ?b 0"
    have rd: "mem_read vm (unat (i vm) + row) = Inr ?b"
      using True by (simp add: mem_read_def)
    have f1: "draw_frame vm ?vm1"
      by (rule draw_cols_draw_frame)
    then have m1: "mem ?vm1 = mem vm" and i1: "i ?vm1 = i vm"
      by (simp_all add: draw_frame_def)
    from 1 [OF True rd] obtain vm' where
      run: "draw_rows ?vm1 x y n (row + 1) = Inr vm'" and
      post: "draw_rows_post ?vm1 x y n (row + 1) vm'"
      by blast
    have eq: "draw_rows vm x y n row = Inr vm'"
      using True run by (simp add: draw_rows_next)
    have fr: "draw_frame vm vm'"
      using f1 post by (simp add: draw_rows_post_def draw_frame_def)
    have disp: "display vm' r c = (display vm r c \<noteq> (y + row \<le> r \<and> sprite vm x y n r c))" for r c
    proof -
      have rowpix: "(r = y + row \<and> x \<le> c \<and> c < x + 8 \<and> c < 64 \<and> isbitset (c - x) ?b) =
          (r = y + row \<and> sprite vm x y n r c)"
        using sprite_row [OF True, of x c] by blast
      have "display vm' r c =
          (display ?vm1 r c \<noteq> (y + (row + 1) \<le> r \<and> sprite ?vm1 x y n r c))"
        using post by (simp add: draw_rows_post_def)
      also have "\<dots> = ((display vm r c \<noteq> (r = y + row \<and> sprite vm x y n r c)) \<noteq>
          (y + (row + 1) \<le> r \<and> sprite vm x y n r c))"
        by (simp only: draw_cols_display0 rowpix sprite_cong [OF m1 i1])
      also have "\<dots> = (display vm r c \<noteq> (y + row \<le> r \<and> sprite vm x y n r c))"
        by (cases "r = y + row") auto
      finally show ?thesis .
    qed
    have hit1: "rows_hit (display ?vm1) ?vm1 x y n (row + 1) =
        rows_hit (display vm) vm x y n (row + 1)"
      by (rule rows_hit_cong) (simp_all add: draw_cols_display0 m1 i1)
    have vv: "v vm' k = (if k = 0xF \<and> rows_hit (display vm) vm x y n row then 1 else v vm k)" for k
    proof -
      have "v vm' k = (if k = 0xF \<and> rows_hit (display ?vm1) ?vm1 x y n (row + 1) then 1
          else v ?vm1 k)"
        using post by (simp add: draw_rows_post_def)
      also have "\<dots> = (if k = 0xF \<and> rows_hit (display vm) vm x y n (row + 1) then 1
          else if k = 0xF \<and> cols_hit (display vm (y + row)) x ?b 0 then 1 else v vm k)"
        by (simp only: hit1 draw_cols_v)
      also have "\<dots> = (if k = 0xF \<and> rows_hit (display vm) vm x y n row then 1 else v vm k)"
        by (auto simp add: rows_hit_next [OF True, of "display vm" x])
      finally show ?thesis .
    qed
    have hit2: "rows_hit (\<lambda>r c. True) ?vm1 x y n (row + 1) =
          rows_hit (\<lambda>r c. True) vm x y n (row + 1)"
      by (rule rows_hit_cong) (simp_all add: m1 i1)
    have dd: "dirty vm' = (dirty vm \<or> rows_hit (\<lambda>r c. True) vm x y n row)"
    proof -
      have "dirty vm' = (dirty ?vm1 \<or> rows_hit (\<lambda>r c. True) ?vm1 x y n (row + 1))"
        using post by (simp add: draw_rows_post_def)
      also have "\<dots> = ((dirty vm \<or> cols_hit (\<lambda>c. True) x ?b 0) \<or>
          rows_hit (\<lambda>r c. True) vm x y n (row + 1))"
        by (simp only: hit2 draw_cols_dirty)
      also have "\<dots> = (dirty vm \<or> rows_hit (\<lambda>r c. True) vm x y n row)"
        by (simp add: rows_hit_next [OF True, of "\<lambda>r c. True" x])
      finally show ?thesis .
    qed
    have "draw_rows_post vm x y n row vm'"
      unfolding draw_rows_post_def using fr disp vv dd by simp
    with eq show ?thesis by blast
  qed
qed

lemma sprite_in_grid: "sprite vm x y n r c \<Longrightarrow> r < 32 \<and> c < 64"
  by (simp add: sprite_def)

lemma rows_hit_collision: "rows_hit d vm x y n 0 = collision d vm x y n"
  unfolding rows_hit_def collision_def
proof
  assume "\<exists>r c. y + 0 \<le> r \<and> sprite vm x y n r c \<and> d r c"
  then obtain r c where rc: "sprite vm x y n r c" "d r c" by blast
  then have "r \<in> {0..<32}" "c \<in> {0..<64}"
    using sprite_in_grid [OF rc(1)] by simp_all
  with rc show "\<exists>r\<in>{0..<32}. \<exists>c\<in>{0..<64}. sprite vm x y n r c \<and> d r c" by blast
next
  assume "\<exists>r\<in>{0..<32}. \<exists>c\<in>{0..<64}. sprite vm x y n r c \<and> d r c"
  then obtain r c where rc: "sprite vm x y n r c" "d r c" by blast
  then have "y + 0 \<le> r" by (simp add: sprite_def)
  with rc show "\<exists>r c. y + 0 \<le> r \<and> sprite vm x y n r c \<and> d r c" by blast
qed

lemma draw_result:
  "\<exists>vm'. draw vm inst = Inr vm' \<and>
     (\<forall>r c. display vm' r c =
        (display vm r c \<noteq> sprite vm (draw_x vm inst) (draw_y vm inst) (draw_n inst) r c)) \<and>
     (\<forall>k. v vm' k =
        (if k = 0xF
         then of_bool8 (collision (display vm) vm (draw_x vm inst) (draw_y vm inst) (draw_n inst))
         else v vm k)) \<and>
     draw_frame vm vm'"
proof -
  let ?vm0 = "vm\<lparr>v := (v vm)(0xF := 0)\<rparr>"
  let ?x = "draw_x vm inst" and ?y = "draw_y vm inst" and ?n = "draw_n inst"
  obtain vm' where run: "draw_rows ?vm0 ?x ?y ?n 0 = Inr vm'"
    and post: "draw_rows_post ?vm0 ?x ?y ?n 0 vm'"
    using draw_rows_result by blast
  have sp: "sprite ?vm0 = sprite vm"
    by (rule sprite_cong) simp_all
  have rh: "rows_hit (display vm) ?vm0 ?x ?y ?n 0 = collision (display vm) vm ?x ?y ?n"
    by (simp add: rows_hit_collision collision_def sp)
  have d: "display vm' r c = (display vm r c \<noteq> sprite vm ?x ?y ?n r c)" for r c
  proof -
    have "display vm' r c = (display vm r c \<noteq> (?y + 0 \<le> r \<and> sprite vm ?x ?y ?n r c))"
      using post by (simp add: draw_rows_post_def sp)
    also have "(?y + 0 \<le> r \<and> sprite vm ?x ?y ?n r c) = sprite vm ?x ?y ?n r c"
      by (auto simp: sprite_def)
    finally show ?thesis .
  qed
  have vv: "v vm' k = (if k = 0xF then of_bool8 (collision (display vm) vm ?x ?y ?n) else v vm k)" for k
  proof -
    have "v vm' k = (if k = 0xF \<and> rows_hit (display ?vm0) ?vm0 ?x ?y ?n 0 then 1 else v ?vm0 k)"
      using post by (simp only: draw_rows_post_def)
    then show ?thesis
      using rh by (simp add: of_bool8_def)
  qed
  have f: "draw_frame vm vm'"
    using post by (simp add: draw_rows_post_def draw_frame_def)
  have "draw vm inst = Inr vm'"
    using run by (simp add: draw_def)
  with d vv f show ?thesis by blast
qed

text \<open>
  C4, as amended. Every draw instruction returns, and it renders the sprite by XOR into
  the buffer at the origin \<open>(Vx mod 64, Vy mod 32)\<close>: a pixel changes exactly when
  \<open>sprite\<close> has a set bit on it, which needs its row below \<open>n\<close>, its row and column
  inside the 64x32 grid (clipped, not wrapped) and the address \<open>i + row\<close> of its byte
  below \<open>MEMORY_SIZE\<close>. \<open>VF\<close> ends at 1 exactly when a set bit fell on a pixel that was
  on, and at 0 otherwise; no other register and nothing else but the dirty flag changes.
\<close>

theorem draw_renders_clipped:
  "\<exists>vm'. draw vm inst = Inr vm' \<and>
     (\<forall>r c. display vm' r c =
        (display vm r c \<noteq> sprite vm (draw_x vm inst) (draw_y vm inst) (draw_n inst) r c)) \<and>
     v vm' 0xF =
       of_bool8 (collision (display vm) vm (draw_x vm inst) (draw_y vm inst) (draw_n inst)) \<and>
     (\<forall>k. k \<noteq> 0xF \<longrightarrow> v vm' k = v vm k) \<and> draw_frame vm vm'"
proof -
  obtain vm' where "draw vm inst = Inr vm'"
    and "\<forall>r c. display vm' r c =
        (display vm r c \<noteq> sprite vm (draw_x vm inst) (draw_y vm inst) (draw_n inst) r c)"
    and "\<forall>k. v vm' k =
        (if k = 0xF
         then of_bool8 (collision (display vm) vm (draw_x vm inst) (draw_y vm inst) (draw_n inst))
         else v vm k)"
    and "draw_frame vm vm'"
    using draw_result by blast
  then show ?thesis by simp
qed

lemma vm_corner_locals:
  "draw_x vm_corner 0xD012 = 60" "draw_y vm_corner 0xD012 = 31" "draw_n 0xD012 = 2"
  by (simp_all add: draw_x_def draw_y_def draw_n_def vm_corner_def)

lemma vm_corner_fields:
  "mem vm_corner 0x300 = 0xFF" "i vm_corner = 0x300" "v vm_corner 0 = 60"
  "v vm_corner 1 = 31"
  by (simp_all add: vm_corner_def vm_main_def loadrom_def MEMORY_SIZE_def)

lemma vm_corner_display: "display vm_corner r c = False"
  by (simp add: vm_corner_def vm_main_def)

lemma vm_corner_sprite:
  "sprite vm_corner 60 31 2 31 60" "sprite vm_corner 60 31 2 31 63"
  "\<not> sprite vm_corner 60 31 2 0 60" "\<not> sprite vm_corner 60 31 2 31 0"
  by (simp_all add: sprite_def vm_corner_fields MEMORY_SIZE_def)

lemma no_collision_on_blank: "(\<And>r c. \<not> d r c) \<Longrightarrow> \<not> collision d vm x y n"
  by (simp add: collision_def)

text \<open>
  The sprite at column 60 of the last row of a blank screen: columns 60 to 63 of row 31
  are set, nothing wraps to column 0 or to row 0, and \<open>VF\<close> is 0.
\<close>

theorem draw_renders_clipped_witness:
  "\<exists>vm'. draw vm_corner 0xD012 = Inr vm' \<and> display vm' 31 60 \<and> display vm' 31 63 \<and>
     \<not> display vm' 0 60 \<and> \<not> display vm' 31 0 \<and> v vm' 0xF = 0 \<and> v vm' 0 = 60"
proof -
  obtain vm' where run: "draw vm_corner 0xD012 = Inr vm'"
    and d: "\<And>r c. display vm' r c = (display vm_corner r c \<noteq> sprite vm_corner 60 31 2 r c)"
    and vf: "v vm' 0xF = of_bool8 (collision (display vm_corner) vm_corner 60 31 2)"
    and vk: "\<And>k. k \<noteq> 0xF \<Longrightarrow> v vm' k = v vm_corner k"
    using draw_renders_clipped [of vm_corner "0xD012"] unfolding vm_corner_locals by blast
  have "\<not> collision (display vm_corner) vm_corner 60 31 2"
    by (rule no_collision_on_blank) (simp add: vm_corner_display)
  then have "v vm' 0xF = 0"
    using vf by (simp add: of_bool8_def)
  moreover have "v vm' 0 = 60"
    using vk [of 0] by (simp add: vm_corner_fields)
  moreover have "display vm' 31 60" "display vm' 31 63" "\<not> display vm' 0 60" "\<not> display vm' 31 0"
    by (simp_all add: d vm_corner_display vm_corner_sprite)
  ultimately show ?thesis
    using run by simp
qed

lemma vm_edge_locals:
  "draw_x vm_edge 0xD002 = 0" "draw_y vm_edge 0xD002 = 0" "draw_n 0xD002 = 2"
  by (simp_all add: draw_x_def draw_y_def draw_n_def vm_edge_def vm_main_def)

lemma vm_edge_fields:
  "mem vm_edge a = 0xFF" "i vm_edge = 0xFFF" "display vm_edge r c = False"
  by (simp_all add: vm_edge_def vm_main_def)

text \<open>
  C4 as stated fails where the sprite runs past the end of memory. On \<open>vm_edge\<close> a
  sprite of two rows at \<open>i = 0xFFF\<close> has, in the specification's reading, a set bit on
  the pixel in row 1 and column 0 (every byte of memory is \<open>0xFF\<close>), which is off and
  inside the grid; the code stops before that row and leaves the pixel off.
\<close>

theorem draw_stops_at_memory_end:
  "spec_sprite vm_edge (draw_x vm_edge 0xD002) (draw_y vm_edge 0xD002) (draw_n 0xD002) 1 0 \<and>
   display vm_edge 1 0 = False \<and>
   pixel_after (draw vm_edge 0xD002) 1 0 = Some False"
proof -
  obtain vm' where run: "draw vm_edge 0xD002 = Inr vm'"
    and d: "\<And>r c. display vm' r c = (display vm_edge r c \<noteq> sprite vm_edge 0 0 2 r c)"
    using draw_result [of vm_edge "0xD002"] unfolding vm_edge_locals by blast
  have "\<not> sprite vm_edge 0 0 2 1 0"
    by (simp add: sprite_def vm_edge_fields MEMORY_SIZE_def)
  then have "display vm' 1 0 = False"
    by (simp add: d vm_edge_fields)
  moreover have "spec_sprite vm_edge 0 0 2 1 0"
    by (simp add: spec_sprite_def vm_edge_fields)
  ultimately show ?thesis
    using run unfolding vm_edge_locals by (simp add: pixel_after_def vm_edge_fields)
qed

text \<open>
  C5. Drawing the same sprite twice in succession at the same location (the second call
  computes the same \<open>x\<close> and \<open>y\<close>, which it does whenever neither coordinate register
  is \<open>VF\<close>) gives back the display buffer of before the first call; and after each call
  \<open>VF\<close> tells whether that call's sprite collided with the buffer that call found.
\<close>

theorem draw_twice_restores:
  assumes "draw vm inst = Inr vm1"
    and "draw_x vm1 inst = draw_x vm inst" and "draw_y vm1 inst = draw_y vm inst"
  shows "\<exists>vm2. draw vm1 inst = Inr vm2 \<and> display vm2 = display vm \<and>
     v vm1 0xF =
       of_bool8 (collision (display vm) vm (draw_x vm inst) (draw_y vm inst) (draw_n inst)) \<and>
     v vm2 0xF =
       of_bool8 (collision (display vm1) vm1 (draw_x vm1 inst) (draw_y vm1 inst) (draw_n inst))"
proof -
  let ?x = "draw_x vm inst" and ?y = "draw_y vm inst" and ?n = "draw_n inst"
  obtain w1 where r1: "draw vm inst = Inr w1"
    and d1: "\<forall>r c. display w1 r c = (display vm r c \<noteq> sprite vm ?x ?y ?n r c)"
    and v1: "\<forall>k. v w1 k = (if k = 0xF then of_bool8 (collision (display vm) vm ?x ?y ?n) else v vm k)"
    and f1: "draw_frame vm w1"
    using draw_result [of vm inst] by blast
  have w1: "w1 = vm1"
    using r1 assms(1) by simp
  obtain vm2 where r2: "draw vm1 inst = Inr vm2"
    and d2: "\<forall>r c. display vm2 r c =
        (display vm1 r c \<noteq> sprite vm1 (draw_x vm1 inst) (draw_y vm1 inst) ?n r c)"
    and v2: "\<forall>k. v vm2 k =
        (if k = 0xF
         then of_bool8 (collision (display vm1) vm1 (draw_x vm1 inst) (draw_y vm1 inst) ?n)
         else v vm1 k)"
    using draw_result [of vm1 inst] by blast
  have sp: "sprite vm1 = sprite vm"
    using f1 unfolding w1 draw_frame_def by (intro sprite_cong) simp_all
  have "display vm2 r c = display vm r c" for r c
    using d1 d2 unfolding w1 sp assms(2,3) by blast
  then have "display vm2 = display vm"
    by (intro ext)
  with r2 v1 v2 show ?thesis
    unfolding w1 by simp
qed

lemma draw_locals_XY:
  "draw_x vm inst = unat (v vm (X inst)) mod 64" "draw_y vm inst = unat (v vm (Y inst)) mod 32"
  by (simp_all add: draw_x_def draw_y_def X_def Y_def)

lemma draw_same_location:
  assumes "draw vm inst = Inr vm1" "X inst \<noteq> 0xF" "Y inst \<noteq> 0xF"
  shows "draw_x vm1 inst = draw_x vm inst \<and> draw_y vm1 inst = draw_y vm inst"
proof -
  obtain w1 where "draw vm inst = Inr w1"
    and "\<forall>k. v w1 k = (if k = 0xF
         then of_bool8 (collision (display vm) vm (draw_x vm inst) (draw_y vm inst) (draw_n inst))
         else v vm k)"
    using draw_result [of vm inst] by blast
  with assms show ?thesis
    by (simp add: draw_locals_XY)
qed

text \<open>
  On the blank screen of \<open>vm_corner\<close> the first call draws without collision and the
  second erases with one.
\<close>

theorem draw_twice_restores_witness:
  "\<exists>vm1 vm2. draw vm_corner 0xD012 = Inr vm1 \<and> draw vm1 0xD012 = Inr vm2 \<and>
     display vm2 = display vm_corner \<and> v vm1 0xF = 0 \<and> v vm2 0xF = 1"
proof -
  obtain vm1 where run1: "draw vm_corner 0xD012 = Inr vm1"
    and d1: "\<And>r c. display vm1 r c = (display vm_corner r c \<noteq> sprite vm_corner 60 31 2 r c)"
    and f1: "draw_frame vm_corner vm1"
    using draw_result [of vm_corner "0xD012"] unfolding vm_corner_locals by blast
  have xy: "X 0xD012 \<noteq> 0xF" "Y 0xD012 \<noteq> 0xF"
    by (simp_all add: X_def Y_def)
  have loc: "draw_x vm1 0xD012 = 60" "draw_y vm1 0xD012 = 31"
    using draw_same_location [OF run1 xy] by (simp_all add: vm_corner_locals)
  have sp: "sprite vm1 = sprite vm_corner"
    using f1 unfolding draw_frame_def by (intro sprite_cong) simp_all
  have "sprite vm1 60 31 2 31 60 \<and> display vm1 31 60"
    by (simp add: sp d1 vm_corner_sprite vm_corner_display)
  then have c2: "collision (display vm1) vm1 60 31 2"
    unfolding collision_def by (intro bexI [of _ 31] bexI [of _ 60]) simp_all
  have c1: "\<not> collision (display vm_corner) vm_corner 60 31 2"
    by (rule no_collision_on_blank) (simp add: vm_corner_display)
  obtain vm2 where "draw vm1 0xD012 = Inr vm2" "display vm2 = display vm_corner"
    "v vm1 0xF = of_bool8 (collision (display vm_corner) vm_corner 60 31 2)"
    "v vm2 0xF = of_bool8 (collision (display vm1) vm1 60 31 2)"
    using draw_twice_restores [OF run1] unfolding loc vm_corner_locals by blast
  with run1 c1 c2 show ?thesis
    by (simp add: of_bool8_def)
qed

section \<open>Stack and skips\<close>

lemma A_not_E0: "A inst \<noteq> 0 \<Longrightarrow> inst \<noteq> 0x00E0 \<and> inst \<noteq> 0x00EE"
  by (auto simp: A_def)

lemma exec_rts: "exec pressed rnd 0x00EE vm keyreg = with_keyreg keyreg (rts vm)"
  by (simp add: exec_def)

lemma exec_call:
  "A inst = 0x2 \<Longrightarrow> exec pressed rnd inst vm keyreg = with_keyreg keyreg (call vm (of_nat (VAL inst)))"
  using A_not_E0 [of inst] by (simp add: exec_def)

text \<open>
  C6. The stack holds \<open>STACK_SIZE = 5\<close> return addresses. Executing \<open>00EE\<close> with an
  empty stack ends the run with the underflow error, executing \<open>2nnn\<close> with five
  entries on the stack ends it with the overflow error. Otherwise \<open>2nnn\<close> stores the
  current program counter (the address after the call instruction) in the next free slot
  and jumps to \<open>nnn\<close>, and \<open>00EE\<close> takes the program counter from the topmost slot.
\<close>

theorem stack_discipline:
  "STACK_SIZE = 5 \<and>
   (sp vm = 0 \<longrightarrow> exec pressed rnd 0x00EE vm keyreg = Inl StackUnderflow) \<and>
   (A inst = 0x2 \<and> unat (sp vm) = 5 \<longrightarrow> exec pressed rnd inst vm keyreg = Inl StackOverflow) \<and>
   (A inst = 0x2 \<and> unat (sp vm) < 5 \<longrightarrow>
      exec pressed rnd inst vm keyreg =
        Inr (vm\<lparr>stack := (stack vm)(unat (sp vm) := pc vm), sp := sp vm + 1,
                pc := of_nat (VAL inst)\<rparr>, keyreg)) \<and>
   (0 < unat (sp vm) \<and> unat (sp vm) \<le> 5 \<longrightarrow>
      exec pressed rnd 0x00EE vm keyreg =
        Inr (vm\<lparr>sp := sp vm - 1, pc := stack vm (unat (sp vm) - 1)\<rparr>, keyreg))"
proof -
  have underflow: "exec pressed rnd 0x00EE vm keyreg = Inl StackUnderflow" if "sp vm = 0"
    using that by (simp add: exec_rts rts_def with_keyreg_def)
  have overflow: "exec pressed rnd inst vm keyreg = Inl StackOverflow"
    if "A inst = 0x2" "unat (sp vm) = 5"
    using that by (simp add: exec_call call_def with_keyreg_def STACK_SIZE_def)
  have push: "exec pressed rnd inst vm keyreg =
        Inr (vm\<lparr>stack := (stack vm)(unat (sp vm) := pc vm), sp := sp vm + 1,
                pc := of_nat (VAL inst)\<rparr>, keyreg)"
    if "A inst = 0x2" "unat (sp vm) < 5"
    using that by (simp add: exec_call call_def with_keyreg_def STACK_SIZE_def)
  have pop: "exec pressed rnd 0x00EE vm keyreg =
        Inr (vm\<lparr>sp := sp vm - 1, pc := stack vm (unat (sp vm) - 1)\<rparr>, keyreg)"
    if "0 < unat (sp vm)" "unat (sp vm) \<le> 5"
  proof -
    from that have nz: "sp vm \<noteq> 0"
      by auto
    then have "unat (sp vm - 1) = unat (sp vm) - 1"
      by (simp add: unat_minus_one)
    with that nz show ?thesis
      by (simp add: exec_rts rts_def with_keyreg_def STACK_SIZE_def)
  qed
  show ?thesis
    using underflow overflow push pop by (simp add: STACK_SIZE_def)
qed

text \<open>The four cases on the start-up machine.\<close>

theorem stack_discipline_witness:
  "exec NOKEY 0 0x00EE vm_main 17 = Inl StackUnderflow \<and>
   exec NOKEY 0 0x2300 (vm_main\<lparr>sp := 5\<rparr>) 17 = Inl StackOverflow \<and>
   exec NOKEY 0 0x2300 vm_main 17 =
     Inr (vm_main\<lparr>stack := (stack vm_main)(0 := 512), sp := 1, pc := 0x300\<rparr>, 17) \<and>
   exec NOKEY 0 0x00EE (vm_main\<lparr>stack := (stack vm_main)(0 := 0x202), sp := 1, pc := 0x300\<rparr>) 17 =
     Inr (vm_main\<lparr>stack := (stack vm_main)(0 := 0x202), sp := 0, pc := 0x202\<rparr>, 17)"
proof -
  have a2: "A 0x2300 = 0x2" and val: "VAL 0x2300 = 0x300"
    by (simp_all add: A_def VAL_def)
  have c1: "exec NOKEY 0 0x00EE vm_main 17 = Inl StackUnderflow"
    using stack_discipline [of vm_main NOKEY 0 17 "0x2300"] by (simp add: vm_main_def)
  have c2: "exec NOKEY 0 0x2300 (vm_main\<lparr>sp := 5\<rparr>) 17 = Inl StackOverflow"
    using stack_discipline [of "vm_main\<lparr>sp := 5\<rparr>" NOKEY 0 17 "0x2300"] a2 by simp
  have c3: "exec NOKEY 0 0x2300 vm_main 17 =
     Inr (vm_main\<lparr>stack := (stack vm_main)(0 := 512), sp := 1, pc := 0x300\<rparr>, 17)"
    using stack_discipline [of vm_main NOKEY 0 17 "0x2300"] a2 val by (simp add: vm_main_def)
  have c4: "exec NOKEY 0 0x00EE (vm_main\<lparr>stack := (stack vm_main)(0 := 0x202), sp := 1, pc := 0x300\<rparr>) 17 =
     Inr (vm_main\<lparr>stack := (stack vm_main)(0 := 0x202), sp := 0, pc := 0x202\<rparr>, 17)"
    using stack_discipline [of "vm_main\<lparr>stack := (stack vm_main)(0 := 0x202), sp := 1, pc := 0x300\<rparr>"
        NOKEY 0 17 "0x2300"]
    by simp
  from c1 c2 c3 c4 show ?thesis by simp
qed

lemma exec_skips:
  "A inst = 0x3 \<Longrightarrow> exec pressed rnd inst vm keyreg = Inr (skip vm (unat (Vx vm inst) = LH inst), keyreg)"
  "A inst = 0x4 \<Longrightarrow> exec pressed rnd inst vm keyreg = Inr (skip vm (unat (Vx vm inst) \<noteq> LH inst), keyreg)"
  "A inst = 0x5 \<and> D inst = 0x0 \<Longrightarrow>
     exec pressed rnd inst vm keyreg = Inr (skip vm (Vx vm inst = Vy vm inst), keyreg)"
  "A inst = 0x9 \<and> D inst = 0x0 \<Longrightarrow>
     exec pressed rnd inst vm keyreg = Inr (skip vm (Vx vm inst \<noteq> Vy vm inst), keyreg)"
  "A inst = 0xE \<and> B inst = 0x9E \<Longrightarrow>
     exec pressed rnd inst vm keyreg = Inr (skip vm (Vx vm inst = pressed), keyreg)"
  "A inst = 0xE \<and> B inst = 0xA1 \<Longrightarrow>
     exec pressed rnd inst vm keyreg = Inr (skip vm (Vx vm inst \<noteq> pressed), keyreg)"
  using A_not_E0 [of inst] by (simp_all add: exec_def)

lemma skip_after_fetch:
  "skip (vm\<lparr>pc := pc vm + 2\<rparr>) c = vm\<lparr>pc := pc vm + (if c then 4 else 2)\<rparr>"
  by (simp add: skip_def)

text \<open>
  C7, as amended. One pass of fetch and execute over a conditional skip (\<open>3xkk\<close>,
  \<open>4xkk\<close>, \<open>5xy0\<close>, \<open>9xy0\<close>, \<open>Ex9E\<close>, \<open>ExA1\<close>) changes nothing but the program
  counter, which advances by 4 when the condition holds and by 2 when it does not (in
  the 16-bit arithmetic of the register). The condition of the two key skips is that
  \<open>Vx\<close> equals, or differs from, the byte that the poll of the tick returned, whatever
  that byte is; when the byte is a key index below 16 this is the condition that key
  \<open>Vx\<close> is pressed, or not pressed.
\<close>

theorem skip_advances_pc:
  assumes "fetch vm = Inr (inst, vm1)"
  shows
   "(A inst = 0x3 \<longrightarrow> cycle pressed rnd vm keyreg =
       Inr (vm\<lparr>pc := pc vm + (if unat (Vx vm inst) = LH inst then 4 else 2)\<rparr>, keyreg)) \<and>
    (A inst = 0x4 \<longrightarrow> cycle pressed rnd vm keyreg =
       Inr (vm\<lparr>pc := pc vm + (if unat (Vx vm inst) \<noteq> LH inst then 4 else 2)\<rparr>, keyreg)) \<and>
    (A inst = 0x5 \<and> D inst = 0x0 \<longrightarrow> cycle pressed rnd vm keyreg =
       Inr (vm\<lparr>pc := pc vm + (if Vx vm inst = Vy vm inst then 4 else 2)\<rparr>, keyreg)) \<and>
    (A inst = 0x9 \<and> D inst = 0x0 \<longrightarrow> cycle pressed rnd vm keyreg =
       Inr (vm\<lparr>pc := pc vm + (if Vx vm inst \<noteq> Vy vm inst then 4 else 2)\<rparr>, keyreg)) \<and>
    (A inst = 0xE \<and> B inst = 0x9E \<longrightarrow> cycle pressed rnd vm keyreg =
       Inr (vm\<lparr>pc := pc vm + (if Vx vm inst = pressed then 4 else 2)\<rparr>, keyreg)) \<and>
    (A inst = 0xE \<and> B inst = 0xA1 \<longrightarrow> cycle pressed rnd vm keyreg =
       Inr (vm\<lparr>pc := pc vm + (if Vx vm inst \<noteq> pressed then 4 else 2)\<rparr>, keyreg)) \<and>
    (A inst = 0xE \<and> B inst = 0x9E \<and> unat pressed < 16 \<longrightarrow> cycle pressed rnd vm keyreg =
       Inr (vm\<lparr>pc := pc vm + (if key_pressed pressed (Vx vm inst) then 4 else 2)\<rparr>, keyreg)) \<and>
    (A inst = 0xE \<and> B inst = 0xA1 \<and> unat pressed < 16 \<longrightarrow> cycle pressed rnd vm keyreg =
       Inr (vm\<lparr>pc := pc vm + (if \<not> key_pressed pressed (Vx vm inst) then 4 else 2)\<rparr>, keyreg))"
proof -
  from assms have vm1: "vm1 = vm\<lparr>pc := pc vm + 2\<rparr>"
    by (simp add: fetch_eq)
  have regs: "Vx vm1 inst = Vx vm inst" "Vy vm1 inst = Vy vm inst"
    by (simp_all add: vm1 Vx_def Vy_def)
  have cyc: "cycle pressed rnd vm keyreg = exec pressed rnd inst vm1 keyreg"
    using assms by (simp add: cycle_def)
  have key: "unat pressed < 16 \<Longrightarrow> key_pressed pressed k = (k = pressed)" for k
    by (auto simp: key_pressed_def)
  show ?thesis
    unfolding cyc by (simp add: exec_skips regs key) (simp add: vm1 skip_after_fetch)
qed

lemma prog_skip_fetch:
  "fetch (prog_skip [b1, b2]) =
     Inr (of_nat (push_bit 8 (unat b1) + unat b2), (prog_skip [b1, b2])\<lparr>pc := 514\<rparr>)"
  by (simp add: fetch_eq prog_skip_def vm_main_def loadrom_def MEMORY_SIZE_def)

lemma prog_skip_fields:
  "pc (prog_skip rom) = 512" "v (prog_skip rom) 0 = 5" "v (prog_skip rom) 1 = 0x2A"
  "v (prog_skip rom) (Suc 0) = 0x2A"
  by (simp_all add: prog_skip_def vm_main_def)

text \<open>
  With \<open>V0 = 5\<close> and \<open>V1 = 0x2A\<close>: \<open>se V1,0x2A\<close> skips and \<open>sne V1,0x2A\<close> does not;
  \<open>se V0,V1\<close> does not skip and \<open>sne V0,V1\<close> does; with key 5 polled \<open>skp V0\<close> skips
  and \<open>sknp V0\<close> does not.
\<close>

theorem skip_advances_pc_witness:
  "pc_after (cycle NOKEY 0 (prog_skip [0x31, 0x2A]) 17) = Some 516 \<and>
   pc_after (cycle NOKEY 0 (prog_skip [0x41, 0x2A]) 17) = Some 514 \<and>
   pc_after (cycle NOKEY 0 (prog_skip [0x50, 0x10]) 17) = Some 514 \<and>
   pc_after (cycle NOKEY 0 (prog_skip [0x90, 0x10]) 17) = Some 516 \<and>
   pc_after (cycle 5 0 (prog_skip [0xE0, 0x9E]) 17) = Some 516 \<and>
   pc_after (cycle 5 0 (prog_skip [0xE0, 0xA1]) 17) = Some 514 \<and>
   key_pressed 5 (v (prog_skip [0xE0, 0x9E]) 0)"
proof -
  have d3: "A 0x312A = 0x3" "LH 0x312A = 0x2A" "X 0x312A = 1"
    and d4: "A 0x412A = 0x4" "LH 0x412A = 0x2A" "X 0x412A = 1"
    and d5: "A 0x5010 = 0x5 \<and> D 0x5010 = 0x0" "X 0x5010 = 0" "Y 0x5010 = 1"
    and d9: "A 0x9010 = 0x9 \<and> D 0x9010 = 0x0" "X 0x9010 = 0" "Y 0x9010 = 1"
    and de: "A 0xE09E = 0xE \<and> B 0xE09E = 0x9E \<and> unat (5 :: u8) < 16" "X 0xE09E = 0"
    and da: "A 0xE0A1 = 0xE \<and> B 0xE0A1 = 0xA1 \<and> unat (5 :: u8) < 16" "X 0xE0A1 = 0"
    by (simp_all add: A_def B_def D_def LH_def X_def Y_def)
  have f: "fetch (prog_skip [0x31, 0x2A]) = Inr (0x312A, (prog_skip [0x31, 0x2A])\<lparr>pc := 514\<rparr>)"
    "fetch (prog_skip [0x41, 0x2A]) = Inr (0x412A, (prog_skip [0x41, 0x2A])\<lparr>pc := 514\<rparr>)"
    "fetch (prog_skip [0x50, 0x10]) = Inr (0x5010, (prog_skip [0x50, 0x10])\<lparr>pc := 514\<rparr>)"
    "fetch (prog_skip [0x90, 0x10]) = Inr (0x9010, (prog_skip [0x90, 0x10])\<lparr>pc := 514\<rparr>)"
    "fetch (prog_skip [0xE0, 0x9E]) = Inr (0xE09E, (prog_skip [0xE0, 0x9E])\<lparr>pc := 514\<rparr>)"
    "fetch (prog_skip [0xE0, 0xA1]) = Inr (0xE0A1, (prog_skip [0xE0, 0xA1])\<lparr>pc := 514\<rparr>)"
    by (simp_all add: prog_skip_fetch)
  have vy: "Vy vm inst = v vm (Y inst)" for vm inst
    by (simp add: Vy_def Y_def)
  have c3: "pc_after (cycle NOKEY 0 (prog_skip [0x31, 0x2A]) 17) = Some 516"
    using skip_advances_pc [OF f(1), of NOKEY 0 17] d3
    by (simp add: pc_after_def Vx_def prog_skip_fields)
  have c4: "pc_after (cycle NOKEY 0 (prog_skip [0x41, 0x2A]) 17) = Some 514"
    using skip_advances_pc [OF f(2), of NOKEY 0 17] d4
    by (simp add: pc_after_def Vx_def prog_skip_fields)
  have c5: "pc_after (cycle NOKEY 0 (prog_skip [0x50, 0x10]) 17) = Some 514"
    using skip_advances_pc [OF f(3), of NOKEY 0 17] d5
    by (simp add: pc_after_def Vx_def vy prog_skip_fields)
  have c9: "pc_after (cycle NOKEY 0 (prog_skip [0x90, 0x10]) 17) = Some 516"
    using skip_advances_pc [OF f(4), of NOKEY 0 17] d9
    by (simp add: pc_after_def Vx_def vy prog_skip_fields)
  have kp: "key_pressed 5 (v (prog_skip [0xE0, 0x9E]) 0)" "key_pressed 5 (v (prog_skip [0xE0, 0xA1]) 0)"
    by (simp_all add: key_pressed_def prog_skip_fields)
  have ce: "pc_after (cycle 5 0 (prog_skip [0xE0, 0x9E]) 17) = Some 516"
    using skip_advances_pc [OF f(5), of 5 0 17] de kp
    by (simp add: pc_after_def Vx_def prog_skip_fields)
  have ca: "pc_after (cycle 5 0 (prog_skip [0xE0, 0xA1]) 17) = Some 514"
    using skip_advances_pc [OF f(6), of 5 0 17] da kp
    by (simp add: pc_after_def Vx_def prog_skip_fields)
  from c3 c4 c5 c9 ce ca kp show ?thesis
    by simp
qed

text \<open>
  C7 as stated fails for the key skips when the poll returns a sentinel. On \<open>vm_nokey\<close>
  no key is pressed (the poll returns \<open>NOKEY\<close>), so key \<open>V0 = 255\<close> is not pressed,
  yet one pass over \<open>skp V0\<close> takes the program counter from 512 to 516.
\<close>

theorem key_skip_without_key:
  "getkeyboard vm_nokey ERR = NOKEY \<and>
   key_pressed (getkeyboard vm_nokey ERR) (v vm_nokey 0) = False \<and>
   pc vm_nokey = 512 \<and>
   pc_after (cycle (getkeyboard vm_nokey ERR) 0 vm_nokey 17) = Some 516"
proof -
  have k: "getkeyboard vm_nokey ERR = NOKEY"
    by (simp add: getkeyboard_def ERR_def)
  have r: "v vm_nokey 0 = 255" "pc vm_nokey = 512"
    by (simp_all add: vm_nokey_def prog_skip_def vm_main_def)
  have f: "fetch vm_nokey = Inr (0xE09E, vm_nokey\<lparr>pc := 514\<rparr>)"
    by (simp add: fetch_eq r) (simp add: vm_nokey_def prog_skip_def vm_main_def loadrom_def MEMORY_SIZE_def)
  have d: "A 0xE09E = 0xE \<and> B 0xE09E = 0x9E" "X 0xE09E = 0"
    by (simp_all add: A_def B_def X_def)
  have "exec NOKEY 0 0xE09E (vm_nokey\<lparr>pc := 514\<rparr>) 17 = Inr (vm_nokey\<lparr>pc := 516\<rparr>, 17)"
    using d by (simp add: exec_skips(5) skip_def Vx_def r NOKEY_def)
  then have "pc_after (cycle NOKEY 0 vm_nokey 17) = Some 516"
    by (simp add: cycle_def f pc_after_def)
  with k r show ?thesis
    by (simp add: key_pressed_def NOKEY_def)
qed

lemma getkeyboard_ERR: "getkeyboard vm ERR = NOKEY"
  by (simp add: getkeyboard_def ERR_def)

lemma getkeyboard_esc: "getkeyboard vm 0x1b = QUIT"
  by (simp add: getkeyboard_def)

text \<open>
  C10. \<open>NOKEY\<close> is the byte 255 and \<open>QUIT\<close> the byte 254; a poll without input
  gives \<open>NOKEY\<close> and escape gives \<open>QUIT\<close>. The two key skips compare \<open>Vx\<close> with
  the polled byte itself. So when the poll of the tick gave \<open>NOKEY\<close>, \<open>Ex9E\<close> skips
  exactly when \<open>Vx = 255\<close>, and \<open>ExA1\<close> skips exactly when \<open>Vx \<noteq> 255\<close>.
\<close>

theorem nokey_aliases_255:
  "NOKEY = 255 \<and> QUIT = 254 \<and> getkeyboard vm0 ERR = NOKEY \<and> getkeyboard vm0 0x1b = QUIT \<and>
   (A inst = 0xE \<and> B inst = 0x9E \<longrightarrow>
      exec pressed rnd inst vm keyreg =
        Inr (vm\<lparr>pc := pc vm + (if Vx vm inst = pressed then 2 else 0)\<rparr>, keyreg)) \<and>
   (A inst = 0xE \<and> B inst = 0xA1 \<longrightarrow>
      exec pressed rnd inst vm keyreg =
        Inr (vm\<lparr>pc := pc vm + (if Vx vm inst \<noteq> pressed then 2 else 0)\<rparr>, keyreg)) \<and>
   (A inst = 0xE \<and> B inst = 0x9E \<and> getkeyboard vm0 c = NOKEY \<longrightarrow>
      exec (getkeyboard vm0 c) rnd inst vm keyreg =
        Inr (vm\<lparr>pc := pc vm + (if Vx vm inst = 255 then 2 else 0)\<rparr>, keyreg)) \<and>
   (A inst = 0xE \<and> B inst = 0xA1 \<and> getkeyboard vm0 c = NOKEY \<longrightarrow>
      exec (getkeyboard vm0 c) rnd inst vm keyreg =
        Inr (vm\<lparr>pc := pc vm + (if Vx vm inst = 255 then 0 else 2)\<rparr>, keyreg))"
  by (simp add: exec_skips skip_def getkeyboard_ERR getkeyboard_esc) (simp add: NOKEY_def QUIT_def)

text \<open>With no key pressed, \<open>skp V0\<close> skips for \<open>V0 = 255\<close> and \<open>sknp V0\<close> does not.\<close>

theorem nokey_aliases_255_witness:
  "exec (getkeyboard vm_main ERR) 0 0xE09E (vm_main\<lparr>v := (v vm_main)(0 := 255)\<rparr>) 17 =
     Inr (vm_main\<lparr>v := (v vm_main)(0 := 255), pc := 514\<rparr>, 17) \<and>
   exec (getkeyboard vm_main ERR) 0 0xE0A1 (vm_main\<lparr>v := (v vm_main)(0 := 255)\<rparr>) 17 =
     Inr (vm_main\<lparr>v := (v vm_main)(0 := 255)\<rparr>, 17) \<and>
   getkeyboard vm_main ERR = 255"
proof -
  let ?vm = "vm_main\<lparr>v := (v vm_main)(0 := 255)\<rparr>"
  have d: "A 0xE09E = 0xE \<and> B 0xE09E = 0x9E" "A 0xE0A1 = 0xE \<and> B 0xE0A1 = 0xA1"
    by (simp_all add: A_def B_def)
  have r: "Vx ?vm 0xE09E = 255" "Vx ?vm 0xE0A1 = 255"
    by (simp_all add: Vx_def X_def)
  have k: "getkeyboard vm_main ERR = NOKEY"
    by (rule getkeyboard_ERR)
  have e1: "exec (getkeyboard vm_main ERR) 0 0xE09E ?vm 17 =
      Inr (?vm\<lparr>pc := pc ?vm + (if Vx ?vm 0xE09E = 255 then 2 else 0)\<rparr>, 17)"
    using nokey_aliases_255 [of vm_main "0xE09E" NOKEY 0 ?vm 17 ERR] d(1) k by blast
  have e2: "exec (getkeyboard vm_main ERR) 0 0xE0A1 ?vm 17 =
      Inr (?vm\<lparr>pc := pc ?vm + (if Vx ?vm 0xE0A1 = 255 then 0 else 2)\<rparr>, 17)"
    using nokey_aliases_255 [of vm_main "0xE0A1" NOKEY 0 ?vm 17 ERR] d(2) k by blast
  have p: "pc vm_main = 512"
    by (simp add: vm_main_def)
  show ?thesis
    unfolding e1 e2 r by (simp add: p k) (simp add: NOKEY_def)
qed

section \<open>Waiting for a key\<close>

text \<open>
  The default keymap: \<open>w\<close> and \<open>W\<close> are key 5, \<open>p\<close> is no key. A NUL byte matches
  the terminator of the keymap and comes back as 16.
\<close>

lemma getkeyboard_examples:
  "getkeyboard vm_main 0x77 = 5" "getkeyboard vm_main 0x57 = 5"
  "getkeyboard vm_main 0x70 = NOKEY" "getkeyboard vm_main 0 = 16"
  by (simp_all add: getkeyboard_def vm_main_def tolower_def ERR_def)

lemma wait_exec:
  "A inst = 0xF \<Longrightarrow> B inst = 0x0A \<Longrightarrow>
   exec pressed rnd inst vm keyreg = Inr (vm\<lparr>pc := pc vm - 2\<rparr>, of_nat (X inst))"
  using A_not_E0 [of inst] by (simp add: exec_def)

lemma wait_cycle:
  assumes "fetch vm = Inr (inst, vm1)" "A inst = 0xF" "B inst = 0x0A"
  shows "cycle pressed rnd vm keyreg = Inr (vm, of_nat (X inst))"
proof -
  from assms(1) have "vm1 = vm\<lparr>pc := pc vm + 2\<rparr>"
    by (simp add: fetch_eq)
  then show ?thesis
    using assms by (simp add: cycle_def wait_exec)
qed

lemma wait_batch:
  assumes "fetch vm = Inr (inst, vm1)" "A inst = 0xF" "B inst = 0x0A"
  shows "batch n pressed rnd vm keyreg = Inr (vm, if n = 0 then keyreg else of_nat (X inst))"
  by (induction n arbitrary: keyreg) (simp_all add: wait_cycle [OF assms])

lemma fetch_same_program:
  assumes "fetch vm = Inr (inst, vm1)" "mem vm' = mem vm" "pc vm' = pc vm"
  shows "fetch vm' = Inr (inst, vm'\<lparr>pc := pc vm + 2\<rparr>)"
  using assms by (simp add: fetch_eq)

lemma getkeyboard_keymap: "keymap vm' = keymap vm \<Longrightarrow> getkeyboard vm' c = getkeyboard vm c"
  by (simp add: getkeyboard_def)

lemma same_program_refl: "same_program vm vm"
  by (simp add: same_program_def)

lemma same_program_idle: "same_program vm vm' \<Longrightarrow> same_program vm (refreshscreen (timers vm'))"
  by (simp add: same_program_def refreshscreen_def timers_def)

lemma wait_tick:
  assumes "fetch vm = Inr (inst, vm1)" "A inst = 0xF" "B inst = 0x0A"
    and "getkeyboard vm c = NOKEY"
  shows "tick c rnd vm (of_nat (X inst)) = Inr (refreshscreen (timers vm), of_nat (X inst), NOKEY)"
  using assms(4) by (simp add: tick_def deliver_def wait_batch [OF assms(1-3)])

lemma wait_ticks:
  assumes "A inst = 0xF" "B inst = 0x0A"
  shows "fetch vm = Inr (inst, vm1) \<Longrightarrow> \<forall>c\<in>set cs. getkeyboard vm c = NOKEY \<Longrightarrow>
    \<exists>vm'. ticks cs rnd vm (of_nat (X inst)) NOKEY = Inr (vm', of_nat (X inst), NOKEY) \<and>
          same_program vm vm'"
proof (induction cs arbitrary: vm vm1)
  case Nil
  then show ?case by (simp add: same_program_refl)
next
  case (Cons c cs)
  let ?vm2 = "refreshscreen (timers vm)"
  have sp: "same_program vm ?vm2"
    by (rule same_program_idle) (rule same_program_refl)
  have t: "tick c rnd vm (of_nat (X inst)) = Inr (?vm2, of_nat (X inst), NOKEY)"
    using Cons.prems by (intro wait_tick [OF _ assms]) simp_all
  have f2: "fetch ?vm2 = Inr (inst, ?vm2\<lparr>pc := pc vm + 2\<rparr>)"
    using sp by (intro fetch_same_program [OF Cons.prems(1)]) (simp_all add: same_program_def)
  have k2: "\<forall>c\<in>set cs. getkeyboard ?vm2 c = NOKEY"
    using Cons.prems(2) sp by (simp add: getkeyboard_keymap [of ?vm2 vm] same_program_def)
  from Cons.IH [OF f2 k2] obtain vm' where
    r: "ticks cs rnd ?vm2 (of_nat (X inst)) NOKEY = Inr (vm', of_nat (X inst), NOKEY)"
    and s: "same_program ?vm2 vm'"
    by blast
  have "same_program vm vm'"
    using sp s by (simp add: same_program_def)
  moreover have "ticks (c # cs) rnd vm (of_nat (X inst)) NOKEY = Inr (vm', of_nat (X inst), NOKEY)"
    using r t by (simp add: NOKEY_def QUIT_def)
  ultimately show ?case by blast
qed

lemma X_less_16: "X inst < 16"
proof -
  have "unat (drop_bit 8 inst AND 0x0F) \<le> unat (0x0F :: u16)"
    by (rule word_and_le1 [THEN word_le_nat_alt [THEN iffD1]])
  then show ?thesis by (simp add: X_def)
qed

lemma unat_X: "unat (of_nat (X inst) :: u8) = X inst"
  using X_less_16 [of inst] by (simp add: unat_of_nat)

lemma deliver_key:
  "key \<noteq> NOKEY \<Longrightarrow>
   deliver vm (of_nat (X inst)) key = (vm\<lparr>v := (v vm)(X inst := key), pc := pc vm + 2\<rparr>, 17)"
  by (simp add: deliver_def unat_X X_less_16)

lemma wait_tick_key:
  assumes "getkeyboard vm c = key" "key \<noteq> NOKEY"
  shows "tick c rnd vm (of_nat (X inst)) =
      (case batch (nat (inspertick vm)) key rnd
              (vm\<lparr>v := (v vm)(X inst := key), pc := pc vm + 2\<rparr>) 17 of
         Inl e \<Rightarrow> Inl e
       | Inr (vm2, keyreg2) \<Rightarrow> Inr (refreshscreen (timers vm2), keyreg2, key))"
  by (simp add: tick_def assms(1) deliver_key [OF assms(2)])

text \<open>
  C9, as amended. Let the instruction at the program counter be \<open>Fx0A\<close>. Executing
  it, once or any number of times in a row, leaves the whole machine as it was, the
  program counter back on the instruction, and records \<open>x\<close> in \<open>keyreg\<close>. From then
  on every tick whose poll gives the byte \<open>NOKEY\<close> leaves the program counter, the
  memory and the registers as they were. On the first tick whose poll gives any other
  byte (the index of a key of the keymap, but also 254 for escape), that byte is stored
  in \<open>Vx\<close>, the program counter moves to the instruction after \<open>Fx0A\<close>, and the
  instructions of that tick run from there with no wait pending.
\<close>

theorem wait_for_key:
  assumes "fetch vm = Inr (inst, vm1)" "A inst = 0xF" "B inst = 0x0A"
    and "\<forall>c\<in>set cs. getkeyboard vm c = NOKEY"
    and "getkeyboard vm c = key" "key \<noteq> NOKEY"
  shows "batch (Suc n) pressed rnd vm keyreg = Inr (vm, of_nat (X inst)) \<and>
     (\<exists>vm'. ticks cs rnd vm (of_nat (X inst)) NOKEY = Inr (vm', of_nat (X inst), NOKEY) \<and>
        same_program vm vm' \<and>
        deliver vm' (of_nat (X inst)) key =
          (vm'\<lparr>v := (v vm)(X inst := key), pc := pc vm + 2\<rparr>, 17) \<and>
        tick c rnd vm' (of_nat (X inst)) =
          (case batch (nat (inspertick vm)) key rnd
                  (vm'\<lparr>v := (v vm)(X inst := key), pc := pc vm + 2\<rparr>) 17 of
             Inl e \<Rightarrow> Inl e
           | Inr (vm2, keyreg2) \<Rightarrow> Inr (refreshscreen (timers vm2), keyreg2, key)))"
proof -
  have b: "batch (Suc n) pressed rnd vm keyreg = Inr (vm, of_nat (X inst))"
    using wait_batch [OF assms(1-3), of "Suc n"] by simp
  obtain vm' where t: "ticks cs rnd vm (of_nat (X inst)) NOKEY = Inr (vm', of_nat (X inst), NOKEY)"
    and s: "same_program vm vm'"
    using wait_ticks [OF assms(2,3) assms(1) assms(4)] by blast
  have d: "deliver vm' (of_nat (X inst)) key =
      (vm'\<lparr>v := (v vm)(X inst := key), pc := pc vm + 2\<rparr>, 17)"
    using s deliver_key [OF assms(6), of vm' inst] by (simp add: same_program_def)
  have k: "getkeyboard vm' c = key"
    using s assms(5) by (simp add: getkeyboard_keymap [of vm' vm] same_program_def)
  have "tick c rnd vm' (of_nat (X inst)) =
      (case batch (nat (inspertick vm)) key rnd
              (vm'\<lparr>v := (v vm)(X inst := key), pc := pc vm + 2\<rparr>) 17 of
         Inl e \<Rightarrow> Inl e
       | Inr (vm2, keyreg2) \<Rightarrow> Inr (refreshscreen (timers vm2), keyreg2, key))"
    using wait_tick_key [OF k assms(6), of rnd inst] s by (simp add: same_program_def)
  with b t s d show ?thesis by blast
qed

lemma jump_self_batch:
  assumes "fetch vm = Inr (inst, vm1)" "A inst = 0x1" "of_nat (VAL inst) = pc vm"
  shows "batch n pressed rnd vm keyreg = Inr (vm, keyreg)"
proof -
  from assms(1) have vm1: "vm1 = vm\<lparr>pc := pc vm + 2\<rparr>"
    by (simp add: fetch_eq)
  have "exec pressed r inst vm1 keyreg = Inr (vm, keyreg)" for r keyreg
    using assms(2,3) A_not_E0 [of inst] by (simp add: exec_def vm1)
  then have "cycle pressed r vm keyreg = Inr (vm, keyreg)" for r keyreg
    using assms(1) by (simp add: cycle_def)
  then show ?thesis
    by (induction n arbitrary: keyreg) simp_all
qed

lemma jump_self_tick:
  assumes "fetch vm = Inr (inst, vm1)" "A inst = 0x1" "of_nat (VAL inst) = pc vm"
  shows "tick c rnd vm 17 = Inr (refreshscreen (timers vm), 17, getkeyboard vm c)"
  by (simp add: tick_def deliver_def jump_self_batch [OF assms])

lemma vm_wait_fetch: "fetch vm_wait = Inr (0xF30A, vm_wait\<lparr>pc := 514\<rparr>)"
  by (simp add: fetch_eq vm_wait_def vm_main_def loadrom_def MEMORY_SIZE_def)

lemma vm_wait_keys:
  "getkeyboard vm_wait ERR = NOKEY" "getkeyboard vm_wait 0x70 = NOKEY" "getkeyboard vm_wait 0x77 = 5"
  "getkeyboard vm_wait 0 = 16" "getkeyboard vm_wait 0x1b = 254"
  by (simp_all add: getkeyboard_def vm_wait_def vm_main_def tolower_def ERR_def NOKEY_def QUIT_def)

lemma vm_wait_decode: "A 0xF30A = 0xF" "B 0xF30A = 0x0A" "X 0xF30A = 3"
  by (simp_all add: A_def B_def X_def)

text \<open>On \<open>vm_wait\<close> the instruction after the wait is a jump to itself.\<close>

lemma vm_wait_jump:
  assumes "mem vm = mem vm_wait" "pc vm = 514"
  shows "fetch vm = Inr (0x1202, vm\<lparr>pc := 516\<rparr>)" "A 0x1202 = 0x1" "of_nat (VAL 0x1202) = pc vm"
  using assms
  by (simp_all add: fetch_eq A_def VAL_def)
     (simp add: vm_wait_def vm_main_def loadrom_def MEMORY_SIZE_def)

lemma vm_wait_resume:
  assumes "mem vm = mem vm_wait" "pc vm = 514"
  shows "batch n pressed rnd vm keyreg = Inr (vm, keyreg)"
    and "tick c rnd vm 17 = Inr (refreshscreen (timers vm), 17, getkeyboard vm c)"
  using jump_self_batch [OF vm_wait_jump [OF assms]] jump_self_tick [OF vm_wait_jump [OF assms]]
  by simp_all

text \<open>
  \<open>ld V3,K\<close> followed by a jump to itself: two ticks without a key (no input, then a
  character outside the keymap) stay at 512; then the tick that polls \<open>w\<close>, key 5,
  ends with \<open>V3 = 5\<close> and the program counter on the jump at 514.
\<close>

theorem wait_for_key_witness:
  "\<exists>vm' vm''. ticks [ERR, 0x70] rand_zero vm_wait 3 NOKEY = Inr (vm', 3, NOKEY) \<and> pc vm' = 512 \<and>
     tick 0x77 rand_zero vm' 3 = Inr (vm'', 17, 5) \<and> v vm'' 3 = 5 \<and> pc vm'' = 514"
proof -
  have nk: "\<forall>c\<in>set [ERR, 0x70]. getkeyboard vm_wait c = NOKEY"
    by (simp add: vm_wait_keys)
  have key: "(5 :: u8) \<noteq> NOKEY"
    by (simp add: NOKEY_def)
  let ?w = "\<lambda>vm'. vm'\<lparr>v := (v vm_wait)(3 := 5), pc := pc vm_wait + 2\<rparr>"
  obtain vm' where t: "ticks [ERR, 0x70] rand_zero vm_wait 3 NOKEY = Inr (vm', 3, NOKEY)"
    and s: "same_program vm_wait vm'"
    and tk: "tick 0x77 rand_zero vm' 3 =
      (case batch (nat (inspertick vm_wait)) 5 rand_zero (?w vm') 17 of
         Inl e \<Rightarrow> Inl e
       | Inr (vm2, keyreg2) \<Rightarrow> Inr (refreshscreen (timers vm2), keyreg2, 5))"
    using wait_for_key [OF vm_wait_fetch vm_wait_decode(1,2) nk vm_wait_keys(3) key,
        where n = 0 and pressed = NOKEY and rnd = rand_zero and keyreg = 17]
    unfolding vm_wait_decode by auto
  have p: "pc vm_wait = 512"
    by (simp add: vm_wait_def vm_main_def)
  have m: "mem vm' = mem vm_wait" "pc vm' = 512"
    using s p by (simp_all add: same_program_def)
  have "batch (nat (inspertick vm_wait)) 5 rand_zero (?w vm') 17 = Inr (?w vm', 17)"
    by (rule vm_wait_resume(1)) (simp_all add: m p)
  then have "tick 0x77 rand_zero vm' 3 = Inr (refreshscreen (timers (?w vm')), 17, 5)"
    using tk by simp
  moreover have "v (refreshscreen (timers (?w vm'))) 3 = 5" "pc (refreshscreen (timers (?w vm'))) = 514"
    by (simp_all add: refreshscreen_def timers_def p)
  ultimately show ?thesis
    using t m by auto
qed

text \<open>
  The machine one tick after a byte other than \<open>NOKEY\<close> was polled on \<open>vm_wait\<close> with
  the wait pending.
\<close>

lemma vm_wait_delivered:
  assumes "getkeyboard vm_wait c = key" "key \<noteq> NOKEY"
  shows "tick c rnd vm_wait 3 =
     Inr (refreshscreen (timers (vm_wait\<lparr>v := (v vm_wait)(3 := key), pc := 514\<rparr>)), 17, key)"
proof -
  let ?w = "vm_wait\<lparr>v := (v vm_wait)(3 := key), pc := 514\<rparr>"
  have p: "pc vm_wait + 2 = 514"
    by (simp add: vm_wait_def vm_main_def)
  have "batch (nat (inspertick vm_wait)) key rnd ?w 17 = Inr (?w, 17)"
    by (rule vm_wait_resume(1)) simp_all
  then show ?thesis
    using wait_tick_key [OF assms, of rnd "0xF30A"] by (simp add: vm_wait_decode p)
qed

text \<open>
  C9 as stated fails when a poll gives a byte that is neither \<open>NOKEY\<close> nor a key
  index. A NUL byte is polled as 16: it ends the wait, and after the ticks that poll
  NUL and then \<open>w\<close> (key 5, the first poll that gives a key index) register \<open>V3\<close>
  holds 16, not 5. Escape is polled as 254: it ends the wait too, with 254 in \<open>V3\<close>.
\<close>

theorem wait_ends_without_key:
  "getkeyboard vm_wait 0 = 16 \<and> getkeyboard vm_wait 0x77 = 5 \<and>
   pc_after (ticks [0] rand_zero vm_wait 3 NOKEY) = Some 514 \<and>
   reg_after (ticks [0] rand_zero vm_wait 3 NOKEY) 3 = Some 16 \<and>
   reg_after (ticks [0, 0x77] rand_zero vm_wait 3 NOKEY) 3 = Some 16 \<and>
   getkeyboard vm_wait 0x1b = QUIT \<and>
   pc_after (ticks [0x1b] rand_zero vm_wait 3 NOKEY) = Some 514 \<and>
   reg_after (ticks [0x1b] rand_zero vm_wait 3 NOKEY) 3 = Some 254"
proof -
  let ?w = "\<lambda>key. refreshscreen (timers (vm_wait\<lparr>v := (v vm_wait)(3 := key), pc := 514\<rparr>))"
  have q: "NOKEY \<noteq> QUIT" "(16 :: u8) \<noteq> NOKEY" "(16 :: u8) \<noteq> QUIT" "(254 :: u8) \<noteq> NOKEY"
    by (simp_all add: NOKEY_def QUIT_def)
  have t1: "tick 0 rand_zero vm_wait 3 = Inr (?w 16, 17, 16)"
    by (rule vm_wait_delivered) (simp_all add: vm_wait_keys q)
  have te: "tick 0x1b rand_zero vm_wait 3 = Inr (?w 254, 17, 254)"
    by (rule vm_wait_delivered) (simp_all add: vm_wait_keys q)
  have f: "mem (?w key) = mem vm_wait" "pc (?w key) = 514" "v (?w key) 3 = key" for key
    by (simp_all add: refreshscreen_def timers_def)
  have t2: "tick 0x77 rand_zero (?w 16) 17 =
      Inr (refreshscreen (timers (?w 16)), 17, getkeyboard (?w 16) 0x77)"
    by (rule vm_wait_resume(2)) (simp_all only: f)
  have r1: "ticks [0] rand_zero vm_wait 3 NOKEY = Inr (?w 16, 17, 16)"
    by (simp add: t1 q)
  have r2: "ticks [0, 0x77] rand_zero vm_wait 3 NOKEY =
      Inr (refreshscreen (timers (?w 16)), 17, getkeyboard (?w 16) 0x77)"
    by (simp add: t1 t2 q)
  have re: "ticks [0x1b] rand_zero vm_wait 3 NOKEY = Inr (?w 254, 17, 254)"
    by (simp add: te q)
  have v2: "v (refreshscreen (timers (?w 16))) 3 = 16"
    by (simp add: refreshscreen_def timers_def)
  show ?thesis
    unfolding r1 r2 re
    by (simp add: pc_after_def reg_after_def f v2 vm_wait_keys QUIT_def)
qed

section \<open>Memory accesses\<close>

declare regdmp_from.simps [simp del]
declare regld_from.simps [simp del]

lemma unat_pc_succ_mod: "unat (w + 1 :: u16) mod MEMORY_SIZE = (unat w + 1) mod MEMORY_SIZE"
proof -
  have "unat (w + 1) = (unat w + 1) mod 2 ^ 16"
    by (simp add: unat_word_ariths)
  moreover have "(4096 :: nat) dvd 2 ^ 16"
    by simp
  ultimately show ?thesis
    by (simp add: MEMORY_SIZE_def mod_mod_cancel)
qed

lemma bcd_eq:
  "bcd vm vx =
     Inr (vm\<lparr>mem := (mem vm)
            ((unat (i vm) + 0) mod MEMORY_SIZE := vx div 100,
             (unat (i vm) + 1) mod MEMORY_SIZE := vx mod 100 div 10,
             (unat (i vm) + 2) mod MEMORY_SIZE := vx mod 100 mod 10 div 1)\<rparr>)"
  by (simp add: bcd_def mem_write_def MEMORY_SIZE_def)

lemma addr_distinct:
  assumes "k < j" "j < MEMORY_SIZE"
  shows "(u + j) mod MEMORY_SIZE \<noteq> (u + k) mod MEMORY_SIZE"
proof
  assume "(u + j) mod MEMORY_SIZE = (u + k) mod MEMORY_SIZE"
  then have "MEMORY_SIZE dvd (u + j) - (u + k)"
    using assms by (simp add: mod_eq_dvd_iff_nat)
  then have "MEMORY_SIZE dvd j - k"
    by simp
  then have "MEMORY_SIZE \<le> j - k"
    using assms by (intro dvd_imp_le) simp_all
  with assms show False by simp
qed

lemma regdmp_from_next:
  "k \<le> vx \<Longrightarrow>
   regdmp_from vm vx k =
     regdmp_from (vm\<lparr>mem := (mem vm)((unat (i vm) + k) mod MEMORY_SIZE := v vm k)\<rparr>) vx (k + 1)"
  by (subst regdmp_from.simps) (simp add: mem_write_def MEMORY_SIZE_def)

lemma regdmp_from_stop: "\<not> k \<le> vx \<Longrightarrow> regdmp_from vm vx k = Inr vm"
  by (subst regdmp_from.simps) simp

lemma regdmp_from_result:
  "vx < MEMORY_SIZE \<Longrightarrow>
   \<exists>vm'. regdmp_from vm vx k = Inr vm' \<and> v vm' = v vm \<and> i vm' = i vm \<and>
     (\<forall>j. k \<le> j \<and> j \<le> vx \<longrightarrow> mem vm' ((unat (i vm) + j) mod MEMORY_SIZE) = v vm j) \<and>
     (\<forall>a. (\<forall>j. k \<le> j \<and> j \<le> vx \<longrightarrow> a \<noteq> (unat (i vm) + j) mod MEMORY_SIZE) \<longrightarrow>
          mem vm' a = mem vm a)"
proof (induction vm vx k rule: regdmp_from.induct)
  case (1 vm vx k)
  show ?case
  proof (cases "k \<le> vx")
    case False
    then show ?thesis
      by (auto simp: regdmp_from_stop)
  next
    case True
    let ?a = "\<lambda>j. (unat (i vm) + j) mod MEMORY_SIZE"
    let ?vm1 = "vm\<lparr>mem := (mem vm)(?a k := v vm k)\<rparr>"
    have w: "mem_write vm (?a k) (v vm k) = Inr ?vm1"
      by (simp add: mem_write_def MEMORY_SIZE_def)
    from 1(1) [OF True w 1(2)] obtain vm' where
      r: "regdmp_from ?vm1 vx (k + 1) = Inr vm'" and vv: "v vm' = v vm" and ii: "i vm' = i vm"
      and hit: "\<And>j. k + 1 \<le> j \<and> j \<le> vx \<Longrightarrow> mem vm' (?a j) = v vm j"
      and miss: "\<And>a. (\<forall>j. k + 1 \<le> j \<and> j \<le> vx \<longrightarrow> a \<noteq> ?a j) \<Longrightarrow> mem vm' a = mem ?vm1 a"
      by auto
    have eq: "regdmp_from vm vx k = Inr vm'"
      using True r by (simp add: regdmp_from_next)
    have hit': "mem vm' (?a j) = v vm j" if "k \<le> j \<and> j \<le> vx" for j
    proof (cases "j = k")
      case False
      with that show ?thesis by (intro hit) simp
    next
      case True
      have "\<forall>j. k + 1 \<le> j \<and> j \<le> vx \<longrightarrow> ?a k \<noteq> ?a j"
        proof (intro allI impI)
        fix j
        assume j: "k + 1 \<le> j \<and> j \<le> vx"
        then have "k < j" "j < MEMORY_SIZE"
          using 1(2) by simp_all
        then show "?a k \<noteq> ?a j"
          using addr_distinct [of k j "unat (i vm)"] by simp
      qed
      then have "mem vm' (?a k) = mem ?vm1 (?a k)"
        by (rule miss)
      then show ?thesis
        using True by simp
    qed
    have miss': "mem vm' a = mem vm a" if "\<forall>j. k \<le> j \<and> j \<le> vx \<longrightarrow> a \<noteq> ?a j" for a
    proof -
      from that True have "a \<noteq> ?a k" by blast
      moreover from that have "\<forall>j. k + 1 \<le> j \<and> j \<le> vx \<longrightarrow> a \<noteq> ?a j" by simp
      then have "mem vm' a = mem ?vm1 a" by (rule miss)
      ultimately show ?thesis by simp
    qed
    show ?thesis
      using eq vv ii hit' miss' by blast
  qed
qed

lemma regld_from_next:
  "k \<le> vx \<Longrightarrow>
   regld_from vm vx k =
     regld_from (vm\<lparr>v := (v vm)(k := mem vm ((unat (i vm) + k) mod MEMORY_SIZE))\<rparr>) vx (k + 1)"
  by (subst regld_from.simps) (simp add: mem_read_def MEMORY_SIZE_def)

lemma regld_from_stop: "\<not> k \<le> vx \<Longrightarrow> regld_from vm vx k = Inr vm"
  by (subst regld_from.simps) simp

lemma regld_from_result:
  "\<exists>vm'. regld_from vm vx k = Inr vm' \<and> mem vm' = mem vm \<and> i vm' = i vm \<and>
     (\<forall>j. v vm' j =
        (if k \<le> j \<and> j \<le> vx then mem vm ((unat (i vm) + j) mod MEMORY_SIZE) else v vm j))"
proof (induction vm vx k rule: regld_from.induct)
  case (1 vm vx k)
  show ?case
  proof (cases "k \<le> vx")
    case False
    then show ?thesis
      by (auto simp: regld_from_stop)
  next
    case True
    let ?b = "mem vm ((unat (i vm) + k) mod MEMORY_SIZE)"
    let ?vm1 = "vm\<lparr>v := (v vm)(k := ?b)\<rparr>"
    have rd: "mem_read vm ((unat (i vm) + k) mod MEMORY_SIZE) = Inr ?b"
      by (simp add: mem_read_def MEMORY_SIZE_def)
    from 1 [OF True rd] obtain vm' where
      r: "regld_from ?vm1 vx (k + 1) = Inr vm'" and mm: "mem vm' = mem vm" and ii: "i vm' = i vm"
      and vv: "\<And>j. v vm' j =
        (if k + 1 \<le> j \<and> j \<le> vx then mem vm ((unat (i vm) + j) mod MEMORY_SIZE) else v ?vm1 j)"
      by auto
    have eq: "regld_from vm vx k = Inr vm'"
      using True r by (simp add: regld_from_next)
    have "v vm' j =
        (if k \<le> j \<and> j \<le> vx then mem vm ((unat (i vm) + j) mod MEMORY_SIZE) else v vm j)" for j
      using True by (cases "j = k") (simp_all add: vv)
    with eq mm ii show ?thesis by blast
  qed
qed

lemma with_keyreg_no_mem_oob:
  "r \<noteq> Inl MemOutOfBounds \<Longrightarrow> with_keyreg keyreg r \<noteq> Inl MemOutOfBounds"
  by (cases r) (simp_all add: with_keyreg_def)

lemma draw_total: "\<exists>vm'. draw vm inst = Inr vm'"
  using draw_result [of vm inst] by blast

lemma regdmp_total: "\<exists>vm'. regdmp vm (X inst) = Inr vm'"
proof -
  have "X inst < MEMORY_SIZE"
    using X_less_16 [of inst] by (simp add: MEMORY_SIZE_def)
  then show ?thesis
    unfolding regdmp_def using regdmp_from_result [of "X inst" vm 0] by blast
qed

lemma regld_total: "\<exists>vm'. regld vm vx = Inr vm'"
  unfolding regld_def using regld_from_result [of vm vx 0] by blast

lemma ops_no_mem_oob:
  "rts vm \<noteq> Inl MemOutOfBounds" "call vm a \<noteq> Inl MemOutOfBounds"
  "draw vm inst \<noteq> Inl MemOutOfBounds" "bcd vm vx \<noteq> Inl MemOutOfBounds"
  "regdmp vm (X inst) \<noteq> Inl MemOutOfBounds" "regld vm k \<noteq> Inl MemOutOfBounds"
  using draw_total [of vm inst] regdmp_total [of vm inst] regld_total [of vm k]
  by (auto simp: rts_def call_def bcd_eq)

lemma exec_no_mem_oob: "exec pressed rnd inst vm keyreg \<noteq> Inl MemOutOfBounds"
  unfolding exec_def by (simp add: with_keyreg_no_mem_oob ops_no_mem_oob)

lemma cycle_no_mem_oob: "cycle pressed rnd vm keyreg \<noteq> Inl MemOutOfBounds"
  by (simp add: cycle_def fetch_eq exec_no_mem_oob)

lemma ones_digit: "(vx :: u8) mod 100 mod 10 = vx mod 10"
proof -
  have "unat (vx mod 100 mod 10) = unat (vx mod 10)"
    by (simp add: unat_mod mod_mod_cancel)
  then show ?thesis
    by (simp only: word_unat_eq_iff)
qed

lemma sprite_spec_sprite:
  "sprite vm x y n r c = (spec_sprite vm x y n r c \<and> unat (i vm) + (r - y) < MEMORY_SIZE)"
  by (auto simp: sprite_def spec_sprite_def)

text \<open>
  C8, as amended. The fetch reads the bytes at \<open>pc mod 4096\<close> and
  \<open>(pc + 1) mod 4096\<close> and advances the 16-bit program counter by 2, without reducing
  it; \<open>bcd\<close> writes the three digits at \<open>(i + 0) mod 4096\<close>, \<open>(i + 1) mod 4096\<close>
  and \<open>(i + 2) mod 4096\<close>; \<open>regdmp\<close> and \<open>regld\<close> copy register \<open>k\<close> to and from
  \<open>(i + k) mod 4096\<close> for \<open>k\<close> up to \<open>x\<close> and touch nothing else; \<open>draw\<close> reads
  the byte of a row at \<open>i + row\<close> only when that is below 4096, where it is the byte
  at \<open>(i + row) mod 4096\<close>. None of them, and no pass of fetch and execute, ever
  accesses memory outside the array.
\<close>

theorem memory_accesses_wrap:
  "fetch vm =
     Inr (of_nat (push_bit 8 (unat (mem vm (unat (pc vm) mod MEMORY_SIZE))) +
                  unat (mem vm ((unat (pc vm) + 1) mod MEMORY_SIZE))),
          vm\<lparr>pc := pc vm + 2\<rparr>) \<and>
   bcd vm vx =
     Inr (vm\<lparr>mem := (mem vm)
            ((unat (i vm) + 0) mod MEMORY_SIZE := vx div 100,
             (unat (i vm) + 1) mod MEMORY_SIZE := vx mod 100 div 10,
             (unat (i vm) + 2) mod MEMORY_SIZE := vx mod 10)\<rparr>) \<and>
   (\<exists>vm'. regdmp vm (X inst) = Inr vm' \<and>
      (\<forall>k. k \<le> X inst \<longrightarrow> mem vm' ((unat (i vm) + k) mod MEMORY_SIZE) = v vm k) \<and>
      (\<forall>a. (\<forall>k. k \<le> X inst \<longrightarrow> a \<noteq> (unat (i vm) + k) mod MEMORY_SIZE) \<longrightarrow>
           mem vm' a = mem vm a)) \<and>
   (\<exists>vm'. regld vm (X inst) = Inr vm' \<and> mem vm' = mem vm \<and>
      (\<forall>k. v vm' k =
         (if k \<le> X inst then mem vm ((unat (i vm) + k) mod MEMORY_SIZE) else v vm k))) \<and>
   (\<exists>vm'. draw vm inst = Inr vm') \<and>
   (\<forall>x y n r c. sprite vm x y n r c =
      (spec_sprite vm x y n r c \<and> unat (i vm) + (r - y) < MEMORY_SIZE)) \<and>
   cycle pressed rnd vm keyreg \<noteq> Inl MemOutOfBounds \<and>
   MEMORY_SIZE = 4096"
proof -
  have f: "fetch vm =
     Inr (of_nat (push_bit 8 (unat (mem vm (unat (pc vm) mod MEMORY_SIZE))) +
                  unat (mem vm ((unat (pc vm) + 1) mod MEMORY_SIZE))),
          vm\<lparr>pc := pc vm + 2\<rparr>)"
    by (simp add: fetch_eq unat_pc_succ_mod)
  have b: "bcd vm vx =
     Inr (vm\<lparr>mem := (mem vm)
            ((unat (i vm) + 0) mod MEMORY_SIZE := vx div 100,
             (unat (i vm) + 1) mod MEMORY_SIZE := vx mod 100 div 10,
             (unat (i vm) + 2) mod MEMORY_SIZE := vx mod 10)\<rparr>)"
    by (simp add: bcd_eq ones_digit)
  have "X inst < MEMORY_SIZE"
    using X_less_16 [of inst] by (simp add: MEMORY_SIZE_def)
  then have d: "\<exists>vm'. regdmp vm (X inst) = Inr vm' \<and>
      (\<forall>k. k \<le> X inst \<longrightarrow> mem vm' ((unat (i vm) + k) mod MEMORY_SIZE) = v vm k) \<and>
      (\<forall>a. (\<forall>k. k \<le> X inst \<longrightarrow> a \<noteq> (unat (i vm) + k) mod MEMORY_SIZE) \<longrightarrow>
           mem vm' a = mem vm a)"
    unfolding regdmp_def using regdmp_from_result [of "X inst" vm 0] by auto
  have l: "\<exists>vm'. regld vm (X inst) = Inr vm' \<and> mem vm' = mem vm \<and>
      (\<forall>k. v vm' k =
         (if k \<le> X inst then mem vm ((unat (i vm) + k) mod MEMORY_SIZE) else v vm k))"
    unfolding regld_def using regld_from_result [of vm "X inst" 0] by auto
  show ?thesis
    using f b d l draw_total [of vm inst] sprite_spec_sprite [of vm]
      cycle_no_mem_oob [of pressed rnd vm keyreg]
    by (simp add: MEMORY_SIZE_def)
qed

text \<open>
  C8 as stated fails for the program counter itself: a fetch at \<open>0xFFE\<close> leaves it at
  \<open>0x1000\<close>, the memory size, not at 0.
\<close>

theorem pc_passes_memory_size:
  "fetch (vm_main\<lparr>pc := 0xFFE\<rparr>) = Inr (0, vm_main\<lparr>pc := 0x1000\<rparr>) \<and>
   unat (0x1000 :: u16) = MEMORY_SIZE \<and> (unat (0xFFE :: u16) + 2) mod MEMORY_SIZE = 0"
  by (simp add: fetch_eq vm_main_def MEMORY_SIZE_def)

lemma vm_top_fields:
  "mem vm_top 4095 = 0xF3" "mem vm_top 0 = 0x0A" "mem vm_top 1 = 0" "pc vm_top = 0xFFF"
  "i vm_top = 0xFFF" "v vm_top 0 = 7" "v vm_top 1 = 9" "v vm_top (Suc 0) = 9"
  "mem vm_top (Suc 0) = 0"
  by (simp_all add: vm_top_def vm_main_def)

text \<open>
  On \<open>vm_top\<close> every access wraps from address 4095 to address 0: the fetch reads
  \<open>0xF3\<close> and \<open>0x0A\<close>, \<open>bcd\<close> of 123 writes 1, 2, 3 at 4095, 0, 1, and the two
  registers go to and come from 4095 and 0.
\<close>

theorem memory_accesses_wrap_witness:
  "fetch vm_top = Inr (0xF30A, vm_top\<lparr>pc := 0x1001\<rparr>) \<and>
   (\<exists>vm'. bcd vm_top 123 = Inr vm' \<and> mem vm' 4095 = 1 \<and> mem vm' 0 = 2 \<and> mem vm' 1 = 3) \<and>
   (\<exists>vm'. regdmp vm_top 1 = Inr vm' \<and> mem vm' 4095 = 7 \<and> mem vm' 0 = 9 \<and> mem vm' 1 = 0) \<and>
   (\<exists>vm'. regld vm_top 1 = Inr vm' \<and> v vm' 0 = 0xF3 \<and> v vm' 1 = 0x0A \<and> v vm' 2 = 0) \<and>
   cycle NOKEY 0 vm_top 17 \<noteq> Inl MemOutOfBounds"
proof -
  note th = memory_accesses_wrap [of vm_top 123 "0xF155" NOKEY 0 17]
  have x: "X 0xF155 = 1"
    by (simp add: X_def)
  have f: "fetch vm_top = Inr (0xF30A, vm_top\<lparr>pc := 0x1001\<rparr>)"
    using th by (simp add: vm_top_fields MEMORY_SIZE_def)
  have b: "\<exists>vm'. bcd vm_top 123 = Inr vm' \<and> mem vm' 4095 = 1 \<and> mem vm' 0 = 2 \<and> mem vm' 1 = 3"
    using th by (simp add: vm_top_fields MEMORY_SIZE_def)
  obtain vmd where d: "regdmp vm_top 1 = Inr vmd"
    and hit: "\<And>k. k \<le> 1 \<Longrightarrow> mem vmd ((unat (i vm_top) + k) mod MEMORY_SIZE) = v vm_top k"
    and miss: "\<And>a. (\<forall>k. k \<le> 1 \<longrightarrow> a \<noteq> (unat (i vm_top) + k) mod MEMORY_SIZE) \<Longrightarrow>
        mem vmd a = mem vm_top a"
    using th unfolding x by blast
  have "mem vmd 4095 = 7" "mem vmd 0 = 9"
    using hit [of 0] hit [of 1] by (simp_all add: vm_top_fields MEMORY_SIZE_def)
  moreover have "\<forall>k. k \<le> 1 \<longrightarrow> (1 :: nat) \<noteq> (unat (i vm_top) + k) mod MEMORY_SIZE"
    by (auto simp: vm_top_fields MEMORY_SIZE_def le_Suc_eq)
  then have "mem vmd 1 = 0"
    using miss [of 1] by (simp add: vm_top_fields)
  ultimately have dd: "\<exists>vm'. regdmp vm_top 1 = Inr vm' \<and> mem vm' 4095 = 7 \<and> mem vm' 0 = 9 \<and> mem vm' 1 = 0"
    using d by blast
  obtain vml where l: "regld vm_top 1 = Inr vml"
    and vl: "\<And>k. v vml k =
         (if k \<le> 1 then mem vm_top ((unat (i vm_top) + k) mod MEMORY_SIZE) else v vm_top k)"
    using th unfolding x by blast
  have "v vml 0 = 0xF3" "v vml 1 = 0x0A" "v vml 2 = 0"
    by (simp_all add: vl vm_top_fields MEMORY_SIZE_def) (simp add: vm_top_def vm_main_def)
  with l have ll: "\<exists>vm'. regld vm_top 1 = Inr vm' \<and> v vm' 0 = 0xF3 \<and> v vm' 1 = 0x0A \<and> v vm' 2 = 0"
    by blast
  from f b dd ll th show ?thesis
    by blast
qed

section \<open>The stack pointer stays in range\<close>

lemma regdmp_from_sp: "regdmp_from vm vx k = Inr vm' \<Longrightarrow> sp vm' = sp vm"
proof (induction vm vx k rule: regdmp_from.induct)
  case (1 vm vx k)
  show ?case
  proof (cases "k \<le> vx")
    case False
    with 1(2) show ?thesis
      by (simp add: regdmp_from_stop)
  next
    case True
    let ?vm1 = "vm\<lparr>mem := (mem vm)((unat (i vm) + k) mod MEMORY_SIZE := v vm k)\<rparr>"
    have w: "mem_write vm ((unat (i vm) + k) mod MEMORY_SIZE) (v vm k) = Inr ?vm1"
      by (simp add: mem_write_def MEMORY_SIZE_def)
    have "regdmp_from ?vm1 vx (k + 1) = Inr vm'"
      using 1(2) True by (simp add: regdmp_from_next)
    from 1(1) [OF True w this] show ?thesis
      by simp
  qed
qed

lemma regld_from_sp: "regld_from vm vx k = Inr vm' \<Longrightarrow> sp vm' = sp vm"
proof (induction vm vx k rule: regld_from.induct)
  case (1 vm vx k)
  show ?case
  proof (cases "k \<le> vx")
    case False
    with 1(2) show ?thesis
      by (simp add: regld_from_stop)
  next
    case True
    let ?b = "mem vm ((unat (i vm) + k) mod MEMORY_SIZE)"
    have rd: "mem_read vm ((unat (i vm) + k) mod MEMORY_SIZE) = Inr ?b"
      by (simp add: mem_read_def MEMORY_SIZE_def)
    have "regld_from (vm\<lparr>v := (v vm)(k := ?b)\<rparr>) vx (k + 1) = Inr vm'"
      using 1(2) True by (simp add: regld_from_next)
    from 1(1) [OF True rd this] show ?thesis
      by simp
  qed
qed

lemma ops_sp:
  "draw vm inst = Inr vm' \<Longrightarrow> sp vm' = sp vm"
  "bcd vm vx = Inr vm' \<Longrightarrow> sp vm' = sp vm"
  "regdmp vm k = Inr vm' \<Longrightarrow> sp vm' = sp vm"
  "regld vm k = Inr vm' \<Longrightarrow> sp vm' = sp vm"
  using draw_result [of vm inst]
  by (auto simp: bcd_eq regdmp_def regld_def draw_frame_def dest: regdmp_from_sp regld_from_sp)

lemma call_sp: "call vm a = Inr vm' \<Longrightarrow> unat (sp vm') \<le> STACK_SIZE"
  by (auto simp: call_def STACK_SIZE_def unat_word_ariths split: if_splits)

lemma rts_sp: "rts vm = Inr vm' \<Longrightarrow> unat (sp vm') \<le> STACK_SIZE"
  by (auto simp: rts_def split: if_splits)

lemma with_keyreg_Inr: "with_keyreg keyreg r = Inr (vm', keyreg') \<Longrightarrow> r = Inr vm'"
  by (cases r) (simp_all add: with_keyreg_def)

text \<open>
  The stack pointer never exceeds \<open>STACK_SIZE\<close>: no instruction that returns takes it
  beyond, so the read of \<open>rts\<close> stays inside the array in every run from start-up.
\<close>

lemma exec_keeps_stack_bound:
  assumes "unat (sp vm) \<le> STACK_SIZE" "exec pressed rnd inst vm keyreg = Inr (vm', keyreg')"
  shows "unat (sp vm') \<le> STACK_SIZE"
  using assms
  by (auto simp: exec_def skip_def set_Vx_def set_VF_def add_reg_def sub_reg_def shr_reg_def
      shl_reg_def add_index_def cls_def Let_def
      split: if_splits dest!: with_keyreg_Inr dest: call_sp rts_sp ops_sp)

lemma with_keyreg_no_stack_oob:
  "r \<noteq> Inl StackOutOfBounds \<Longrightarrow> with_keyreg keyreg r \<noteq> Inl StackOutOfBounds"
  by (cases r) (simp_all add: with_keyreg_def)

lemma rts_in_bounds: "unat (sp vm) \<le> STACK_SIZE \<Longrightarrow> rts vm \<noteq> Inl StackOutOfBounds"
proof -
  assume b: "unat (sp vm) \<le> STACK_SIZE"
  show ?thesis
  proof (cases "sp vm = 0")
    case True
    then show ?thesis by (simp add: rts_def)
  next
    case False
    then have "unat (sp vm - 1) = unat (sp vm) - 1" "0 < unat (sp vm)"
      by (simp_all add: unat_minus_one unat_gt_0)
    with b False show ?thesis
      by (simp add: rts_def)
  qed
qed

lemma ops_no_stack_oob:
  "call vm a \<noteq> Inl StackOutOfBounds" "draw vm inst \<noteq> Inl StackOutOfBounds"
  "bcd vm vx \<noteq> Inl StackOutOfBounds" "regdmp vm (X inst) \<noteq> Inl StackOutOfBounds"
  "regld vm k \<noteq> Inl StackOutOfBounds"
  using draw_total [of vm inst] regdmp_total [of vm inst] regld_total [of vm k]
  by (auto simp: call_def bcd_eq)

lemma exec_stack_read_in_bounds:
  "unat (sp vm) \<le> STACK_SIZE \<Longrightarrow> exec pressed rnd inst vm keyreg \<noteq> Inl StackOutOfBounds"
  unfolding exec_def by (simp add: with_keyreg_no_stack_oob ops_no_stack_oob rts_in_bounds)

end
